theory Spec2Isabelle
  imports Main "HOL-Library.Multiset" "HOL-Library.Product_Lexorder"
begin

section \<open>Token routes: event stores of the hub pool and the spoke pools\<close>

text \<open>
  A shallow embedding of \<^verbatim>\<open>src/tokenRoutes.ts\<close>. The classes
  \<^verbatim>\<open>SpokePoolUtils\<close> and \<^verbatim>\<open>HubPoolUtils\<close> become records of their fields,
  their methods become functions that take the store (and, where the method awaits the
  provider or the contract, the answers of that chain) and return the outcome together with
  the store as the method leaves it. A thrown exception or a rejected promise is a value
  \<open>Inl e\<close>.
\<close>

subsection \<open>Errors\<close>

datatype error =
    Error string            \<comment> \<open>\<^verbatim>\<open>throw new Error(msg)\<close>\<close>
  | AssertionError string   \<comment> \<open>a failed \<^verbatim>\<open>assert(cond, msg)\<close>\<close>
  | Rejected string
      \<comment> \<open>raised outside the file: the provider, a contract call, the ranged fetcher, \<^verbatim>\<open>BigNumber\<close>\<close>

type_synonym 'a result = "error + 'a"

subsection \<open>Events\<close>

text \<open>
  An address is the string ethers decodes it to. Chain ids are \<^verbatim>\<open>BigNumber\<close>s
  (\<^verbatim>\<open>uint256\<close> in the contracts): natural numbers. Block number, transaction index and log
  index are JavaScript numbers holding integers.
\<close>

type_synonym address = string

text \<open>
  The source tells the event kinds apart by the string \<^verbatim>\<open>event.event\<close> and reads
  \<^verbatim>\<open>event.args\<close> after the test; the six kinds with the arguments the source reads are
  the constructors of one datatype, and the type guards test the constructor. Where a
  function reads the arguments after a guard, the other cases of its \<open>case\<close> are never
  reached.
\<close>

datatype event_args =
    L1TokenEnabledForLiquidityProvision address address
      \<comment> \<open>\<^verbatim>\<open>l1Token\<close>, \<^verbatim>\<open>lpToken\<close>\<close>
  | L2TokenDisabledForLiquidityProvision address
      \<comment> \<open>\<^verbatim>\<open>l1Token\<close>\<close>
  | SetEnableDepositRoute nat nat address bool
      \<comment> \<open>\<^verbatim>\<open>originChainId\<close>, \<^verbatim>\<open>destinationChainId\<close>, \<^verbatim>\<open>originToken\<close>, \<^verbatim>\<open>depositsEnabled\<close>\<close>
  | CrossChainContractsSet nat address
      \<comment> \<open>\<^verbatim>\<open>l2ChainId\<close>, \<^verbatim>\<open>spokePool\<close>\<close>
  | SetPoolRebalanceRoute nat address address
      \<comment> \<open>\<^verbatim>\<open>destinationChainId\<close>, \<^verbatim>\<open>l1Token\<close>, \<^verbatim>\<open>destinationToken\<close>\<close>
  | EnabledDepositRoute address nat bool
      \<comment> \<open>\<^verbatim>\<open>originToken\<close>, \<^verbatim>\<open>destinationChainId\<close>, \<^verbatim>\<open>enabled\<close>\<close>

record event =
  args :: event_args
  blockNumber :: int
  transactionIndex :: int
  logIndex :: int
  transactionHash :: string

fun isSetEnableDepositRoute :: "event \<Rightarrow> bool" where
  "isSetEnableDepositRoute e = (case args e of SetEnableDepositRoute _ _ _ _ \<Rightarrow> True | _ \<Rightarrow> False)"

fun isCrossChainContractsSet :: "event \<Rightarrow> bool" where
  "isCrossChainContractsSet e = (case args e of CrossChainContractsSet _ _ \<Rightarrow> True | _ \<Rightarrow> False)"

fun isL1TokenEnabledForLiquidityProvision :: "event \<Rightarrow> bool" where
  "isL1TokenEnabledForLiquidityProvision e =
     (case args e of L1TokenEnabledForLiquidityProvision _ _ \<Rightarrow> True | _ \<Rightarrow> False)"

fun isL2TokenDisabledForLiquidityProvision :: "event \<Rightarrow> bool" where
  "isL2TokenDisabledForLiquidityProvision e =
     (case args e of L2TokenDisabledForLiquidityProvision _ \<Rightarrow> True | _ \<Rightarrow> False)"

fun isSetPoolRebalanceRoute :: "event \<Rightarrow> bool" where
  "isSetPoolRebalanceRoute e = (case args e of SetPoolRebalanceRoute _ _ _ \<Rightarrow> True | _ \<Rightarrow> False)"

fun isEnabledDepositRoute :: "event \<Rightarrow> bool" where
  "isEnabledDepositRoute e = (case args e of EnabledDepositRoute _ _ _ \<Rightarrow> True | _ \<Rightarrow> False)"

subsection \<open>What a chain answers during one call\<close>

text \<open>
  The provider, the contract and \<^verbatim>\<open>incrementalEvents\<close> (of \<^verbatim>\<open>./utils\<close>, not part of
  the file) are outside the program. One record holds what they answer while a method
  runs: \<open>incrementalEvents c k a b r\<close> is the outcome of
  \<^verbatim>\<open>incrementalEvents((s, e) => contract.queryFilter(contract.filters.k(), s, e), a, b, r)\<close>.
\<close>

record chain =
  getBlockNumber :: "int result"
  getNetwork :: "unit result"
  incrementalEvents :: "string \<Rightarrow> int \<Rightarrow> int \<Rightarrow> int option \<Rightarrow> event list result"
  contract_wrappedNativeToken :: "address result"
  contract_weth :: "address result"
  contract_symbol :: "address \<Rightarrow> string result"

text \<open>
  A ranged fetch as the source sets it up in its \<^verbatim>\<open>queries\<close> array: the event filter and
  the three arguments passed on to \<^verbatim>\<open>incrementalEvents\<close>.
\<close>

record query =
  eventFilter :: string
  fromBlock :: int
  toBlock :: int
  maxWidth :: "int option"

definition runQuery :: "chain \<Rightarrow> query \<Rightarrow> event list result" where
  "runQuery c q = incrementalEvents c (eventFilter q) (fromBlock q) (toBlock q) (maxWidth q)"

text \<open>
  \<^verbatim>\<open>bluebird.mapSeries(queries, (x) => x)\<close> awaits the promises in array order: the
  outcome is the list of their values, or the rejection of the first one (in array order)
  that rejects.
\<close>

fun mapSeries :: "'a result list \<Rightarrow> 'a list result" where
  "mapSeries [] = Inr []"
| "mapSeries (p # ps) =
     (case p of
        Inl e \<Rightarrow> Inl e
      | Inr x \<Rightarrow> (case mapSeries ps of Inl e \<Rightarrow> Inl e | Inr xs \<Rightarrow> Inr (x # xs)))"

subsection \<open>Sorting the hub log\<close>

text \<open>The comparator handed to \<^verbatim>\<open>sort\<close> (lines 258 to 267): it throws on a full tie.\<close>

definition compareEvents :: "event \<Rightarrow> event \<Rightarrow> int result" where
  "compareEvents a b =
     (if blockNumber a \<noteq> blockNumber b then Inr (blockNumber a - blockNumber b)
      else if transactionIndex a \<noteq> transactionIndex b
        then Inr (transactionIndex a - transactionIndex b)
      else if logIndex a \<noteq> logIndex b then Inr (logIndex a - logIndex b)
      else Inl (Error (''Duplicate events found on transaction: '' @ transactionHash a)))"

text \<open>
  \<^verbatim>\<open>Array.prototype.sort\<close> belongs to the runtime. ECMAScript fixes that it is stable and
  that an exception of the comparator ends the sort with that exception; which pairs are
  compared is left to the engine. The model is the stable insertion sort: the elements are
  taken from left to right and each is compared, as first argument, with the elements
  already placed, from the smallest on, until one is greater.
\<close>

fun insertBy :: "('a \<Rightarrow> 'a \<Rightarrow> int result) \<Rightarrow> 'a \<Rightarrow> 'a list \<Rightarrow> 'a list result" where
  "insertBy cmp x [] = Inr [x]"
| "insertBy cmp x (y # ys) =
     (case cmp x y of
        Inl e \<Rightarrow> Inl e
      | Inr d \<Rightarrow>
          if d < 0 then Inr (x # y # ys)
          else (case insertBy cmp x ys of Inl e \<Rightarrow> Inl e | Inr zs \<Rightarrow> Inr (y # zs)))"

fun sortFrom :: "('a \<Rightarrow> 'a \<Rightarrow> int result) \<Rightarrow> 'a list \<Rightarrow> 'a list \<Rightarrow> 'a list result" where
  "sortFrom cmp placed [] = Inr placed"
| "sortFrom cmp placed (x # xs) =
     (case insertBy cmp x placed of Inl e \<Rightarrow> Inl e | Inr placed' \<Rightarrow> sortFrom cmp placed' xs)"

definition sortBy :: "('a \<Rightarrow> 'a \<Rightarrow> int result) \<Rightarrow> 'a list \<Rightarrow> 'a list result" where
  "sortBy cmp xs = sortFrom cmp [] xs"

subsection \<open>The hub store: fetching\<close>

record HubPoolUtils =
  hub_address :: address
  hub_startBlock :: int
  hub_maxRange :: "int option"
  hub_events :: "event list"
  wethAddress :: "address option"

text \<open>The constructor: \<^verbatim>\<open>startBlock = 0\<close> by default, no events, no weth address.\<close>

definition new_HubPoolUtils :: "address \<Rightarrow> int option \<Rightarrow> int option \<Rightarrow> HubPoolUtils" where
  "new_HubPoolUtils a startBlock maxRange =
     \<lparr>hub_address = a,
      hub_startBlock = (case startBlock of None \<Rightarrow> 0 | Some b \<Rightarrow> b),
      hub_maxRange = maxRange, hub_events = [], wethAddress = None\<rparr>"

definition hub_queries :: "HubPoolUtils \<Rightarrow> int \<Rightarrow> query list" where
  "hub_queries h latestBlock =
     map (\<lambda>k. \<lparr>eventFilter = k, fromBlock = hub_startBlock h, toBlock = latestBlock,
               maxWidth = hub_maxRange h\<rparr>)
       [''L1TokenEnabledForLiquidityProvision'', ''L2TokenDisabledForLiquidityProvision'',
        ''SetEnableDepositRoute'', ''CrossChainContractsSet'', ''SetPoolRebalanceRoute'']"

text \<open>
  \<^verbatim>\<open>HubPoolUtils.fetchEvents\<close> (lines 190 to 269). The field \<^verbatim>\<open>events\<close> is assigned only
  when nothing before the assignment throws.
\<close>

definition hub_fetchEvents :: "chain \<Rightarrow> HubPoolUtils \<Rightarrow> event list result \<times> HubPoolUtils" where
  "hub_fetchEvents c h =
     (case getBlockNumber c of
        Inl e \<Rightarrow> (Inl e, h)
      | Inr n \<Rightarrow>
          (let latestBlock = n - 1;
               queries = map (runQuery c) (hub_queries h latestBlock)
           in case mapSeries queries of
                Inl e \<Rightarrow> (Inl e, h)
              | Inr rs \<Rightarrow>
                  (case sortBy compareEvents (concat rs) of
                     Inl e \<Rightarrow> (Inl e, h)
                   | Inr evs \<Rightarrow> (Inr evs, h\<lparr>hub_events := evs\<rparr>))))"

text \<open>The ordering key of an event, compared lexicographically.\<close>

definition orderingKey :: "event \<Rightarrow> int \<times> int \<times> int" where
  "orderingKey e = (blockNumber e, transactionIndex e, logIndex e)"

definition duplicateError :: "event \<Rightarrow> error" where
  "duplicateError a = Error (''Duplicate events found on transaction: '' @ transactionHash a)"


subsection \<open>JavaScript objects and sets\<close>

text \<open>
  A plain object used as a table is the list of its own properties in the order
  \<^verbatim>\<open>Object.entries\<close>, \<^verbatim>\<open>Object.keys\<close> and \<^verbatim>\<open>Object.values\<close> list them. A property
  whose key is an array index (the decimal string of an integer below \<open>2^32 - 1\<close>) is
  listed before every other key, array indices in ascending order; the other keys follow in
  the order of their creation.

  Two kinds of key occur. An address is a string starting with \<^verbatim>\<open>0x\<close>, never an array
  index: \<open>setProp\<close> appends a new key. A chain id used as a key is the decimal string of a
  natural number (\<^verbatim>\<open>toString()\<close> of a \<^verbatim>\<open>BigNumber\<close>, or the string of a safe
  integer); the model keeps the number and \<open>setChainProp\<close> places a new key by the rule
  above.
\<close>

fun setProp :: "'k \<Rightarrow> 'v \<Rightarrow> ('k \<times> 'v) list \<Rightarrow> ('k \<times> 'v) list" where
  "setProp k v [] = [(k, v)]"
| "setProp k v ((k', v') # ps) = (if k' = k then (k, v) # ps else (k', v') # setProp k v ps)"

definition deleteProp :: "'k \<Rightarrow> ('k \<times> 'v) list \<Rightarrow> ('k \<times> 'v) list" where
  "deleteProp k ps = filter (\<lambda>p. fst p \<noteq> k) ps"

definition isArrayIndex :: "nat \<Rightarrow> bool" where
  "isArrayIndex n = (n < 2 ^ 32 - 1)"

fun addChainProp :: "nat \<Rightarrow> 'v \<Rightarrow> (nat \<times> 'v) list \<Rightarrow> (nat \<times> 'v) list" where
  "addChainProp k v [] = [(k, v)]"
| "addChainProp k v ((k', v') # ps) =
     (if isArrayIndex k \<and> (\<not> isArrayIndex k' \<or> k < k') then (k, v) # (k', v') # ps
      else (k', v') # addChainProp k v ps)"

text \<open>\<open>modifyProp k f\<close>: the object stored under \<open>k\<close> is changed in place.\<close>

definition modifyProp :: "'k \<Rightarrow> ('v \<Rightarrow> 'v) \<Rightarrow> ('k \<times> 'v) list \<Rightarrow> ('k \<times> 'v) list" where
  "modifyProp k f ps = map (\<lambda>p. if fst p = k then (fst p, f (snd p)) else p) ps"

definition setChainProp :: "nat \<Rightarrow> 'v \<Rightarrow> (nat \<times> 'v) list \<Rightarrow> (nat \<times> 'v) list" where
  "setChainProp k v ps =
     (if map_of ps k = None then addChainProp k v ps else modifyProp k (\<lambda>_. v) ps)"

text \<open>
  A \<^verbatim>\<open>Set<string>\<close> is the list of its members in insertion order, which is the order
  \<^verbatim>\<open>values()\<close> lists them.
\<close>

definition setAdd :: "'a \<Rightarrow> 'a list \<Rightarrow> 'a list" where
  "setAdd x s = (if x \<in> set s then s else s @ [x])"

definition setDelete :: "'a \<Rightarrow> 'a list \<Rightarrow> 'a list" where
  "setDelete x s = filter (\<lambda>y. y \<noteq> x) s"

text \<open>
  \<^verbatim>\<open>Number(key)\<close> of the decimal string of a natural number is the nearest double, ties
  to the even significand: the number itself below \<open>2^53\<close>. (Chain ids are below \<open>2^256\<close>,
  far from the overflow of a double.)
\<close>

fun bitLength :: "nat \<Rightarrow> nat" where
  "bitLength n = (if n = 0 then 0 else Suc (bitLength (n div 2)))"

definition Number :: "nat \<Rightarrow> nat" where
  "Number n =
     (if n < 2 ^ 53 then n
      else (let e = bitLength n - 53; q = n div 2 ^ e; r = n mod 2 ^ e; half = 2 ^ (e - 1)
            in if r < half \<or> (r = half \<and> even q) then q * 2 ^ e else (q + 1) * 2 ^ e))"

text \<open>
  \<^verbatim>\<open>BigNumber.toNumber()\<close> of ethers throws a numeric fault unless the value is below
  \<open>2^53\<close>.
\<close>

definition toNumber :: "nat \<Rightarrow> nat result" where
  "toNumber n = (if n < 2 ^ 53 then Inr n else Inl (Rejected ''overflow''))"

subsection \<open>The spoke store\<close>

record SpokePoolUtils =
  spoke_address :: address
  spoke_startBlock :: int
  spoke_maxRange :: "int option"
  spoke_events :: "event list"
  wrappedNativeToken :: "address option"

definition new_SpokePoolUtils :: "address \<Rightarrow> int option \<Rightarrow> int option \<Rightarrow> SpokePoolUtils" where
  "new_SpokePoolUtils a startBlock maxRange =
     \<lparr>spoke_address = a,
      spoke_startBlock = (case startBlock of None \<Rightarrow> 0 | Some b \<Rightarrow> b),
      spoke_maxRange = maxRange, spoke_events = [], wrappedNativeToken = None\<rparr>"

definition spoke_queries :: "SpokePoolUtils \<Rightarrow> int \<Rightarrow> query list" where
  "spoke_queries s latestBlock =
     [\<lparr>eventFilter = ''EnabledDepositRoute'', fromBlock = spoke_startBlock s,
       toBlock = latestBlock, maxWidth = spoke_maxRange s\<rparr>]"

text \<open>\<^verbatim>\<open>SpokePoolUtils.fetchEvents\<close> (lines 112 to 133).\<close>

definition spoke_fetchEvents ::
  "chain \<Rightarrow> SpokePoolUtils \<Rightarrow> event list result \<times> SpokePoolUtils" where
  "spoke_fetchEvents c s =
     (case getBlockNumber c of
        Inl e \<Rightarrow> (Inl e, s)
      | Inr latestBlock \<Rightarrow>
          (case getNetwork c of
             Inl e \<Rightarrow> (Inl e, s)
           | Inr chainId \<Rightarrow>
               (let queries = map (runQuery c) (spoke_queries s latestBlock)
                in case mapSeries queries of
                     Inl e \<Rightarrow> (Inl e, s)
                   | Inr rs \<Rightarrow> (Inr (concat rs), s\<lparr>spoke_events := concat rs\<rparr>))))"

definition fallbackWrappedNativeToken :: address where
  "fallbackWrappedNativeToken = ''0x4200000000000000000000000000000000000006''"

text \<open>\<^verbatim>\<open>SpokePoolUtils.update\<close> (lines 104 to 111): the \<^verbatim>\<open>catch\<close> takes any failure of the read.\<close>

definition spoke_update :: "chain \<Rightarrow> SpokePoolUtils \<Rightarrow> unit result \<times> SpokePoolUtils" where
  "spoke_update c s =
     (case spoke_fetchEvents c s of
        (Inl e, s') \<Rightarrow> (Inl e, s')
      | (Inr _, s') \<Rightarrow>
          (case contract_wrappedNativeToken c of
             Inr a \<Rightarrow> (Inr (), s'\<lparr>wrappedNativeToken := Some a\<rparr>)
           | Inl _ \<Rightarrow> (Inr (), s'\<lparr>wrappedNativeToken := Some fallbackWrappedNativeToken\<rparr>)))"

text \<open>
  \<^verbatim>\<open>routesEnabled\<close> (lines 134 to 154): one step of the \<^verbatim>\<open>reduce\<close>, then the fold
  from the empty object. The closing \<^verbatim>\<open>Object.fromEntries(Object.entries(result).map(...))\<close>
  keeps the keys and their order and lists each set.
\<close>

definition routesEnabled_step ::
  "(nat \<times> address list) list \<Rightarrow> event \<Rightarrow> (nat \<times> address list) list" where
  "routesEnabled_step result e =
     (if \<not> isEnabledDepositRoute e then result
      else case args e of
             EnabledDepositRoute originToken destinationChainId enabled \<Rightarrow>
               (let result1 = (if map_of result destinationChainId = None
                               then setChainProp destinationChainId [] result else result)
                in if enabled then modifyProp destinationChainId (setAdd originToken) result1
                   else modifyProp destinationChainId (setDelete originToken) result1)
           | _ \<Rightarrow> result)"

definition routesEnabled :: "SpokePoolUtils \<Rightarrow> (nat \<times> address list) list" where
  "routesEnabled s = foldl routesEnabled_step [] (spoke_events s)"

definition getSupportedTokens :: "SpokePoolUtils \<Rightarrow> address list" where
  "getSupportedTokens s =
     (let table = routesEnabled s
      in foldl (\<lambda>tokens token. setAdd token tokens) [] (concat (map snd table)))"

definition getSupportedChains :: "SpokePoolUtils \<Rightarrow> nat list" where
  "getSupportedChains s = (let table = routesEnabled s in map Number (map fst table))"

subsection \<open>The hub store: update and derived views\<close>

definition hub_update :: "chain \<Rightarrow> HubPoolUtils \<Rightarrow> unit result \<times> HubPoolUtils" where
  "hub_update c h =
     (case hub_fetchEvents c h of
        (Inl e, h') \<Rightarrow> (Inl e, h')
      | (Inr _, h') \<Rightarrow>
          (case contract_weth c of
             Inl e \<Rightarrow> (Inl e, h')
           | Inr a \<Rightarrow> (Inr (), h'\<lparr>wethAddress := Some a\<rparr>)))"

text \<open>\<^verbatim>\<open>assert(x, msg)\<close> fails when \<open>x\<close> is \<^verbatim>\<open>undefined\<close> or the empty string.\<close>

definition getWethAddress :: "HubPoolUtils \<Rightarrow> address result" where
  "getWethAddress h =
     (case wethAddress h of
        None \<Rightarrow> Inl (AssertionError ''weth address not set'')
      | Some a \<Rightarrow> if a = [] then Inl (AssertionError ''weth address not set'') else Inr a)"

fun getSpokePoolAddresses_from ::
  "(nat \<times> address) list \<Rightarrow> event list \<Rightarrow> (nat \<times> address) list result" where
  "getSpokePoolAddresses_from result [] = Inr result"
| "getSpokePoolAddresses_from result (e # es) =
     (if \<not> isCrossChainContractsSet e then getSpokePoolAddresses_from result es
      else case args e of
             CrossChainContractsSet l2ChainId spokePool \<Rightarrow>
               (case toNumber l2ChainId of
                  Inl err \<Rightarrow> Inl err
                | Inr k \<Rightarrow> getSpokePoolAddresses_from (setChainProp k spokePool result) es)
           | _ \<Rightarrow> getSpokePoolAddresses_from result es)"

definition getSpokePoolAddresses :: "HubPoolUtils \<Rightarrow> (nat \<times> address) list result" where
  "getSpokePoolAddresses h = getSpokePoolAddresses_from [] (hub_events h)"

definition getL1LpTokenTable_step ::
  "(address \<times> address) list \<Rightarrow> event \<Rightarrow> (address \<times> address) list" where
  "getL1LpTokenTable_step result e =
     (let result1 =
            (if isL1TokenEnabledForLiquidityProvision e
             then case args e of
                    L1TokenEnabledForLiquidityProvision l1Token lpToken \<Rightarrow>
                      setProp l1Token lpToken result
                  | _ \<Rightarrow> result
             else result)
      in if isL2TokenDisabledForLiquidityProvision e
         then case args e of
                L2TokenDisabledForLiquidityProvision l1Token \<Rightarrow> deleteProp l1Token result1
              | _ \<Rightarrow> result1
         else result1)"

definition getL1LpTokenTable :: "HubPoolUtils \<Rightarrow> (address \<times> address) list" where
  "getL1LpTokenTable h = foldl getL1LpTokenTable_step [] (hub_events h)"

definition getL1Tokens :: "HubPoolUtils \<Rightarrow> address list" where
  "getL1Tokens h = map fst (getL1LpTokenTable h)"

definition getLpTokens :: "HubPoolUtils \<Rightarrow> address list" where
  "getLpTokens h = map snd (getL1LpTokenTable h)"

definition getSpokeTokenTable_step ::
  "(address \<times> address) list \<Rightarrow> event \<Rightarrow> (address \<times> address) list" where
  "getSpokeTokenTable_step result e =
     (if \<not> isSetPoolRebalanceRoute e then result
      else case args e of
             SetPoolRebalanceRoute destinationChainId l1Token destinationToken \<Rightarrow>
               setProp destinationToken l1Token result
           | _ \<Rightarrow> result)"

definition getSpokeTokenTable :: "HubPoolUtils \<Rightarrow> (address \<times> address) list" where
  "getSpokeTokenTable h = foldl getSpokeTokenTable_step [] (hub_events h)"

definition getRoutes_step ::
  "(nat \<times> (nat \<times> (address \<times> bool) list) list) list \<Rightarrow> event
     \<Rightarrow> (nat \<times> (nat \<times> (address \<times> bool) list) list) list" where
  "getRoutes_step result e =
     (if \<not> isSetEnableDepositRoute e then result
      else case args e of
             SetEnableDepositRoute originChainId destinationChainId originToken
                 depositsEnabled \<Rightarrow>
               (let result1 = (if map_of result originChainId = None
                               then setChainProp originChainId [] result else result);
                    result2 = modifyProp originChainId
                                (\<lambda>inner. if map_of inner destinationChainId = None
                                          then setChainProp destinationChainId [] inner
                                          else inner)
                                result1
                in modifyProp originChainId
                     (modifyProp destinationChainId (setProp originToken depositsEnabled))
                     result2)
           | _ \<Rightarrow> result)"

definition getRoutes :: "HubPoolUtils \<Rightarrow> (nat \<times> (nat \<times> (address \<times> bool) list) list) list" where
  "getRoutes h = foldl getRoutes_step [] (hub_events h)"

subsection \<open>The join of \<^verbatim>\<open>fetchRoutes\<close>\<close>

record Route =
  fromChain :: nat
  toChain :: nat
  fromTokenAddress :: address
  fromSpokeAddress :: address
  fromTokenSymbol :: "string option"
  isNative :: bool
  l1TokenAddress :: "address option"





text \<open>
  An element of \<^verbatim>\<open>spokeData\<close> (lines 400 to 404): the key and the address of the spoke
  together with what \<^verbatim>\<open>getSpokePoolState\<close> returned for it. A table lookup that finds
  nothing is \<^verbatim>\<open>undefined\<close> in the source and \<open>None\<close> here.
\<close>

record spokeData =
  sd_fromSpokeAddress :: address
  sd_fromChain :: nat
  sd_routes :: "(nat \<times> address list) list"
  sd_symbols :: "(address \<times> string) list"
  sd_wrappedNativeToken :: address


text \<open>
  The body of the innermost \<^verbatim>\<open>forEach\<close> (lines 414 to 433): the records pushed for one
  token of one destination chain of one spoke. \<open>nativeCurrencySymbol\<close> is the field of
  that name of \<^verbatim>\<open>getChainInfo(fromChain)\<close> (of \<^verbatim>\<open>./utils\<close>), which line 390 has
  already read once for every spoke.
\<close>

definition routesOfToken ::
  "(address \<times> address) list \<Rightarrow> string \<Rightarrow> spokeData \<Rightarrow> nat \<Rightarrow> address \<Rightarrow> Route list" where
  "routesOfToken spokeTokenTable nativeCurrencySymbol sd toChain' fromTokenAddress' =
     (let l1TokenAddress' = map_of spokeTokenTable fromTokenAddress';
          fromTokenSymbol' = map_of (sd_symbols sd) fromTokenAddress';
          route = \<lparr>fromChain = Number (sd_fromChain sd), toChain = Number toChain',
                   fromTokenAddress = fromTokenAddress',
                   fromSpokeAddress = sd_fromSpokeAddress sd,
                   fromTokenSymbol = fromTokenSymbol', isNative = False,
                   l1TokenAddress = l1TokenAddress'\<rparr>
      in if fromTokenAddress' = sd_wrappedNativeToken sd
         then [route, route\<lparr>fromTokenSymbol := Some nativeCurrencySymbol, isNative := True\<rparr>]
         else [route])"

text \<open>The three nested loops (lines 409 to 437); the result is \<^verbatim>\<open>allRoutes\<close>.\<close>

definition joinRoutes ::
  "(address \<times> address) list \<Rightarrow> (nat \<Rightarrow> string) \<Rightarrow> spokeData list \<Rightarrow> Route list" where
  "joinRoutes spokeTokenTable getNativeCurrencySymbol spokeDatas =
     concat (map (\<lambda>sd.
       concat (map (\<lambda>(toChain', fromTokenAddresses).
         concat (map (routesOfToken spokeTokenTable (getNativeCurrencySymbol (sd_fromChain sd))
                        sd toChain')
                   fromTokenAddresses))
         (sd_routes sd)))
       spokeDatas)"

subsection \<open>Notions used to state the properties\<close>

text \<open>The list stored under a key of a table of lists, empty when the key is absent.\<close>

definition tokensOf :: "('k \<times> 'a list) list \<Rightarrow> 'k \<Rightarrow> 'a list" where
  "tokensOf table k = (case map_of table k of None \<Rightarrow> [] | Some ts \<Rightarrow> ts)"

text \<open>
  \<open>lastSetting c t es\<close>: the \<^verbatim>\<open>enabled\<close> flag of the last \<^verbatim>\<open>EnabledDepositRoute\<close> event
  of the log \<open>es\<close> for destination chain \<open>c\<close> and token \<open>t\<close>, if there is one.
\<close>

fun lastSetting :: "nat \<Rightarrow> address \<Rightarrow> event list \<Rightarrow> bool option" where
  "lastSetting c t [] = None"
| "lastSetting c t (e # es) =
     (case lastSetting c t es of
        Some b \<Rightarrow> Some b
      | None \<Rightarrow>
          (case args e of
             EnabledDepositRoute t' c' b \<Rightarrow> if t' = t \<and> c' = c then Some b else None
           | _ \<Rightarrow> None))"

text \<open>
  The enabled triples of the join in the order the loops visit them: the spoke, a key of its
  route table, a token listed under that key.
\<close>

definition enabledTriples :: "spokeData list \<Rightarrow> (spokeData \<times> nat \<times> address) list" where
  "enabledTriples spokeDatas =
     concat (map (\<lambda>sd. concat (map (\<lambda>(c, ts). map (\<lambda>t. (sd, c, t)) ts) (sd_routes sd)))
               spokeDatas)"

subsection \<open>The derived views on a heap of objects\<close>

text \<open>
  The functions above compute what a view returns. To say what a call does to the store,
  the views are given a second time as programs on a heap: a store is an object with
  fields, its log is an array the field \<^verbatim>\<open>events\<close> refers to, and every object a view
  creates (\<^verbatim>\<open>{}\<close>, \<^verbatim>\<open>new Set()\<close>, an array) is a new cell that the view then writes to as
  the source does. A reference is the index of a cell; a heap only grows. Arrays and
  iterators that a statement builds and drops at once (\<^verbatim>\<open>Object.entries\<close>,
  \<^verbatim>\<open>Object.values\<close>, \<^verbatim>\<open>Object.keys\<close>, the pairs handed to \<^verbatim>\<open>Object.fromEntries\<close>) are not
  given cells.
\<close>

type_synonym ref = nat

datatype jsval = Str string | Num nat | Bool bool | Ref ref

record SpokePoolFields =
  f_spoke_address :: address
  f_spoke_startBlock :: int
  f_spoke_maxRange :: "int option"
  f_spoke_events :: ref
  f_wrappedNativeToken :: "address option"

record HubPoolFields =
  f_hub_address :: address
  f_hub_startBlock :: int
  f_hub_maxRange :: "int option"
  f_hub_events :: ref
  f_wethAddress :: "address option"

datatype cell =
    SpokePoolObject SpokePoolFields
  | HubPoolObject HubPoolFields
  | EventArray "event list"
  | ChainObject "(nat \<times> jsval) list"     \<comment> \<open>an object whose keys are chain ids\<close>
  | AddrObject "(address \<times> jsval) list"  \<comment> \<open>an object whose keys are addresses\<close>
  | SetObject "address list"
  | ArrayObject "jsval list"

type_synonym heap = "cell list"

definition cellAt :: "heap \<Rightarrow> ref \<Rightarrow> cell option" where
  "cellAt H r = (if r < length H then Some (H ! r) else None)"

definition alloc :: "cell \<Rightarrow> heap \<Rightarrow> ref \<times> heap" where
  "alloc c H = (length H, H @ [c])"

definition writeCell :: "ref \<Rightarrow> cell \<Rightarrow> heap \<Rightarrow> heap" where
  "writeCell r c H = (if r < length H then H[r := c] else H)"

text \<open>
  Reading through a reference. The source is typed, so a reference always leads to a cell of
  the kind the statement expects; the other cases are there to make the functions total.
\<close>

definition chainProps :: "heap \<Rightarrow> ref \<Rightarrow> (nat \<times> jsval) list" where
  "chainProps H r = (case cellAt H r of Some (ChainObject ps) \<Rightarrow> ps | _ \<Rightarrow> [])"

definition addrProps :: "heap \<Rightarrow> ref \<Rightarrow> (address \<times> jsval) list" where
  "addrProps H r = (case cellAt H r of Some (AddrObject ps) \<Rightarrow> ps | _ \<Rightarrow> [])"

definition setMembers :: "heap \<Rightarrow> ref \<Rightarrow> address list" where
  "setMembers H r = (case cellAt H r of Some (SetObject ts) \<Rightarrow> ts | _ \<Rightarrow> [])"

definition arrayElems :: "heap \<Rightarrow> ref \<Rightarrow> jsval list" where
  "arrayElems H r = (case cellAt H r of Some (ArrayObject vs) \<Rightarrow> vs | _ \<Rightarrow> [])"

definition eventsAt :: "heap \<Rightarrow> ref \<Rightarrow> event list" where
  "eventsAt H r = (case cellAt H r of Some (EventArray es) \<Rightarrow> es | _ \<Rightarrow> [])"

text \<open>\<^verbatim>\<open>this.events\<close> of a spoke store and of a hub store.\<close>

definition spoke_this_events :: "heap \<Rightarrow> ref \<Rightarrow> event list" where
  "spoke_this_events H this =
     (case cellAt H this of Some (SpokePoolObject f) \<Rightarrow> eventsAt H (f_spoke_events f) | _ \<Rightarrow> [])"

definition hub_this_events :: "heap \<Rightarrow> ref \<Rightarrow> event list" where
  "hub_this_events H this =
     (case cellAt H this of Some (HubPoolObject f) \<Rightarrow> eventsAt H (f_hub_events f) | _ \<Rightarrow> [])"

definition strOf :: "jsval \<Rightarrow> string" where
  "strOf v = (case v of Str s \<Rightarrow> s | _ \<Rightarrow> [])"

definition numOf :: "jsval \<Rightarrow> nat" where
  "numOf v = (case v of Num n \<Rightarrow> n | _ \<Rightarrow> 0)"

definition boolOf :: "jsval \<Rightarrow> bool" where
  "boolOf v = (case v of Bool b \<Rightarrow> b | _ \<Rightarrow> False)"

text \<open>
  \<^verbatim>\<open>SpokePoolUtils.routesEnabled\<close> (lines 134 to 154) on the heap. The callback of
  \<^verbatim>\<open>reduce\<close> writes to the object \<^verbatim>\<open>init\<close> and to the sets stored in it.
\<close>

definition heap_routesEnabled_step :: "ref \<Rightarrow> heap \<Rightarrow> event \<Rightarrow> heap" where
  "heap_routesEnabled_step result H e =
     (if \<not> isEnabledDepositRoute e then H
      else case args e of
             EnabledDepositRoute originToken destinationChainId enabled \<Rightarrow>
               (let H1 = (if map_of (chainProps H result) destinationChainId = None
                          then (case alloc (SetObject []) H of
                                  (p, H') \<Rightarrow>
                                    writeCell result
                                      (ChainObject (setChainProp destinationChainId (Ref p)
                                                      (chainProps H' result))) H')
                          else H)
                in case map_of (chainProps H1 result) destinationChainId of
                     Some (Ref p) \<Rightarrow>
                       if enabled
                       then writeCell p (SetObject (setAdd originToken (setMembers H1 p))) H1
                       else writeCell p (SetObject (setDelete originToken (setMembers H1 p))) H1
                   | _ \<Rightarrow> H1)
           | _ \<Rightarrow> H)"

text \<open>
  The closing expression of \<^verbatim>\<open>routesEnabled\<close>: for every property of \<^verbatim>\<open>result\<close>, in
  order, a new array of the members of its set; the returned object has the same keys in
  the same order.
\<close>

fun heap_listSets :: "(nat \<times> jsval) list \<Rightarrow> heap \<Rightarrow> (nat \<times> jsval) list \<times> heap" where
  "heap_listSets [] H = ([], H)"
| "heap_listSets ((chainId, addressSet) # ps) H =
     (case alloc (ArrayObject
                    (map Str (case addressSet of Ref p \<Rightarrow> setMembers H p | _ \<Rightarrow> []))) H of
        (a, H1) \<Rightarrow>
          (case heap_listSets ps H1 of (qs, H2) \<Rightarrow> ((chainId, Ref a) # qs, H2)))"

definition heap_routesEnabled :: "ref \<Rightarrow> heap \<Rightarrow> ref \<times> heap" where
  "heap_routesEnabled this H =
     (case alloc (ChainObject []) H of
        (init, H1) \<Rightarrow>
          (let H2 = foldl (heap_routesEnabled_step init) H1 (spoke_this_events H1 this)
           in case heap_listSets (chainProps H2 init) H2 of
                (entries, H3) \<Rightarrow> alloc (ChainObject entries) H3))"

text \<open>\<^verbatim>\<open>getSupportedTokens\<close> (lines 155 to 162).\<close>

definition heap_getSupportedTokens :: "ref \<Rightarrow> heap \<Rightarrow> ref \<times> heap" where
  "heap_getSupportedTokens this H =
     (case heap_routesEnabled this H of
        (table, H1) \<Rightarrow>
          (case alloc (SetObject []) H1 of
             (tokens, H2) \<Rightarrow>
               (let H3 = foldl
                           (\<lambda>H' v. foldl
                              (\<lambda>H'' token.
                                 writeCell tokens
                                   (SetObject (setAdd (strOf token) (setMembers H'' tokens))) H'')
                              H' (case v of Ref a \<Rightarrow> arrayElems H' a | _ \<Rightarrow> []))
                           H2 (map snd (chainProps H2 table))
                in alloc (ArrayObject (map Str (setMembers H3 tokens))) H3)))"

text \<open>\<^verbatim>\<open>getSupportedChains\<close> (lines 163 to 166).\<close>

definition heap_getSupportedChains :: "ref \<Rightarrow> heap \<Rightarrow> ref \<times> heap" where
  "heap_getSupportedChains this H =
     (case heap_routesEnabled this H of
        (table, H1) \<Rightarrow>
          alloc (ArrayObject (map (\<lambda>k. Num (Number k)) (map fst (chainProps H1 table)))) H1)"

text \<open>\<^verbatim>\<open>getSpokePoolAddresses\<close> (lines 270 to 277): the callback can throw.\<close>

fun heap_getSpokePoolAddresses_from :: "ref \<Rightarrow> heap \<Rightarrow> event list \<Rightarrow> ref result \<times> heap" where
  "heap_getSpokePoolAddresses_from result H [] = (Inr result, H)"
| "heap_getSpokePoolAddresses_from result H (e # es) =
     (if \<not> isCrossChainContractsSet e then heap_getSpokePoolAddresses_from result H es
      else case args e of
             CrossChainContractsSet l2ChainId spokePool \<Rightarrow>
               (case toNumber l2ChainId of
                  Inl err \<Rightarrow> (Inl err, H)
                | Inr k \<Rightarrow>
                    heap_getSpokePoolAddresses_from result
                      (writeCell result
                         (ChainObject (setChainProp k (Str spokePool) (chainProps H result))) H)
                      es)
           | _ \<Rightarrow> heap_getSpokePoolAddresses_from result H es)"

definition heap_getSpokePoolAddresses :: "ref \<Rightarrow> heap \<Rightarrow> ref result \<times> heap" where
  "heap_getSpokePoolAddresses this H =
     (case alloc (ChainObject []) H of
        (init, H1) \<Rightarrow> heap_getSpokePoolAddresses_from init H1 (hub_this_events H1 this))"

text \<open>\<^verbatim>\<open>getL1LpTokenTable\<close>, \<^verbatim>\<open>getL1Tokens\<close>, \<^verbatim>\<open>getLpTokens\<close> (lines 278 to 295).\<close>

definition heap_getL1LpTokenTable_step :: "ref \<Rightarrow> heap \<Rightarrow> event \<Rightarrow> heap" where
  "heap_getL1LpTokenTable_step result H e =
     (let H1 =
            (if isL1TokenEnabledForLiquidityProvision e
             then case args e of
                    L1TokenEnabledForLiquidityProvision l1Token lpToken \<Rightarrow>
                      writeCell result
                        (AddrObject (setProp l1Token (Str lpToken) (addrProps H result))) H
                  | _ \<Rightarrow> H
             else H)
      in if isL2TokenDisabledForLiquidityProvision e
         then case args e of
                L2TokenDisabledForLiquidityProvision l1Token \<Rightarrow>
                  writeCell result (AddrObject (deleteProp l1Token (addrProps H1 result))) H1
              | _ \<Rightarrow> H1
         else H1)"

definition heap_getL1LpTokenTable :: "ref \<Rightarrow> heap \<Rightarrow> ref \<times> heap" where
  "heap_getL1LpTokenTable this H =
     (case alloc (AddrObject []) H of
        (init, H1) \<Rightarrow>
          (init, foldl (heap_getL1LpTokenTable_step init) H1 (hub_this_events H1 this)))"

definition heap_getL1Tokens :: "ref \<Rightarrow> heap \<Rightarrow> ref \<times> heap" where
  "heap_getL1Tokens this H =
     (case heap_getL1LpTokenTable this H of
        (table, H1) \<Rightarrow> alloc (ArrayObject (map (\<lambda>k. Str k) (map fst (addrProps H1 table)))) H1)"

definition heap_getLpTokens :: "ref \<Rightarrow> heap \<Rightarrow> ref \<times> heap" where
  "heap_getLpTokens this H =
     (case heap_getL1LpTokenTable this H of
        (table, H1) \<Rightarrow> alloc (ArrayObject (map snd (addrProps H1 table))) H1)"

text \<open>\<^verbatim>\<open>getSpokeTokenTable\<close> (lines 297 to 305).\<close>

definition heap_getSpokeTokenTable_step :: "ref \<Rightarrow> heap \<Rightarrow> event \<Rightarrow> heap" where
  "heap_getSpokeTokenTable_step result H e =
     (if \<not> isSetPoolRebalanceRoute e then H
      else case args e of
             SetPoolRebalanceRoute destinationChainId l1Token destinationToken \<Rightarrow>
               writeCell result
                 (AddrObject (setProp destinationToken (Str l1Token) (addrProps H result))) H
           | _ \<Rightarrow> H)"

definition heap_getSpokeTokenTable :: "ref \<Rightarrow> heap \<Rightarrow> ref \<times> heap" where
  "heap_getSpokeTokenTable this H =
     (case alloc (AddrObject []) H of
        (result, H1) \<Rightarrow>
          (result, foldl (heap_getSpokeTokenTable_step result) H1 (hub_this_events H1 this)))"

text \<open>
  \<^verbatim>\<open>getRoutes\<close> (lines 306 to 322): three statements of the callback, each reading
  \<^verbatim>\<open>result\<close> again.
\<close>

definition heap_getRoutes_step :: "ref \<Rightarrow> heap \<Rightarrow> event \<Rightarrow> heap" where
  "heap_getRoutes_step result H e =
     (if \<not> isSetEnableDepositRoute e then H
      else case args e of
             SetEnableDepositRoute originChainId destinationChainId originToken
                 depositsEnabled \<Rightarrow>
               (let H1 = (if map_of (chainProps H result) originChainId = None
                          then (case alloc (ChainObject []) H of
                                  (p, H') \<Rightarrow>
                                    writeCell result
                                      (ChainObject (setChainProp originChainId (Ref p)
                                                      (chainProps H' result))) H')
                          else H);
                    H2 = (case map_of (chainProps H1 result) originChainId of
                            Some (Ref p) \<Rightarrow>
                              if map_of (chainProps H1 p) destinationChainId = None
                              then (case alloc (AddrObject []) H1 of
                                      (q, H') \<Rightarrow>
                                        writeCell p
                                          (ChainObject (setChainProp destinationChainId (Ref q)
                                                          (chainProps H' p))) H')
                              else H1
                          | _ \<Rightarrow> H1)
                in case map_of (chainProps H2 result) originChainId of
                     Some (Ref p) \<Rightarrow>
                       (case map_of (chainProps H2 p) destinationChainId of
                          Some (Ref q) \<Rightarrow>
                            writeCell q
                              (AddrObject (setProp originToken (Bool depositsEnabled)
                                             (addrProps H2 q))) H2
                        | _ \<Rightarrow> H2)
                   | _ \<Rightarrow> H2)
           | _ \<Rightarrow> H)"

definition heap_getRoutes :: "ref \<Rightarrow> heap \<Rightarrow> ref \<times> heap" where
  "heap_getRoutes this H =
     (case alloc (ChainObject []) H of
        (result, H1) \<Rightarrow>
          (result, foldl (heap_getRoutes_step result) H1 (hub_this_events H1 this)))"

text \<open>
  What a returned reference stands for: the value of the object with the values of the
  objects it refers to, as the functions of the previous subsections return it.
\<close>

definition stringsAt :: "heap \<Rightarrow> jsval \<Rightarrow> string list" where
  "stringsAt H v = (case v of Ref a \<Rightarrow> map strOf (arrayElems H a) | _ \<Rightarrow> [])"

definition numbersAt :: "heap \<Rightarrow> jsval \<Rightarrow> nat list" where
  "numbersAt H v = (case v of Ref a \<Rightarrow> map numOf (arrayElems H a) | _ \<Rightarrow> [])"

definition stringArrayAt :: "heap \<Rightarrow> ref \<Rightarrow> string list" where
  "stringArrayAt H a = stringsAt H (Ref a)"

definition numberArrayAt :: "heap \<Rightarrow> ref \<Rightarrow> nat list" where
  "numberArrayAt H a = numbersAt H (Ref a)"

definition mapValues :: "('v \<Rightarrow> 'a) \<Rightarrow> ('k \<times> 'v) list \<Rightarrow> ('k \<times> 'a) list" where
  "mapValues f ps = map (\<lambda>p. (fst p, f (snd p))) ps"

definition routeTableAt :: "heap \<Rightarrow> ref \<Rightarrow> (nat \<times> address list) list" where
  "routeTableAt H r = mapValues (stringsAt H) (chainProps H r)"

definition chainStringsAt :: "heap \<Rightarrow> ref \<Rightarrow> (nat \<times> string) list" where
  "chainStringsAt H r = mapValues strOf (chainProps H r)"

definition addrStringsAt :: "heap \<Rightarrow> ref \<Rightarrow> (address \<times> string) list" where
  "addrStringsAt H r = mapValues strOf (addrProps H r)"

definition addrBoolsAt :: "heap \<Rightarrow> jsval \<Rightarrow> (address \<times> bool) list" where
  "addrBoolsAt H v = (case v of Ref q \<Rightarrow> mapValues boolOf (addrProps H q) | _ \<Rightarrow> [])"

definition destTableAt :: "heap \<Rightarrow> jsval \<Rightarrow> (nat \<times> (address \<times> bool) list) list" where
  "destTableAt H v = (case v of Ref p \<Rightarrow> mapValues (addrBoolsAt H) (chainProps H p) | _ \<Rightarrow> [])"

definition depositRoutesAt ::
  "heap \<Rightarrow> ref \<Rightarrow> (nat \<times> (nat \<times> (address \<times> bool) list) list) list" where
  "depositRoutesAt H r = mapValues (destTableAt H) (chainProps H r)"

text \<open>A call that can throw returns the error or a reference.\<close>

definition resultAt :: "(heap \<Rightarrow> 'r \<Rightarrow> 'a) \<Rightarrow> heap \<Rightarrow> 'r result \<Rightarrow> 'a result" where
  "resultAt denote H out = (case out of Inl err \<Rightarrow> Inl err | Inr v \<Rightarrow> Inr (denote H v))"

text \<open>
  The stores the heap holds, as the records of the previous subsections, and what a call
  may do to the heap it found: every cell that was there is still there, unchanged.
\<close>

definition spokeAt :: "heap \<Rightarrow> ref \<Rightarrow> SpokePoolUtils option" where
  "spokeAt H this =
     (case cellAt H this of
        Some (SpokePoolObject f) \<Rightarrow>
          (case cellAt H (f_spoke_events f) of
             Some (EventArray es) \<Rightarrow>
               Some \<lparr>spoke_address = f_spoke_address f, spoke_startBlock = f_spoke_startBlock f,
                     spoke_maxRange = f_spoke_maxRange f, spoke_events = es,
                     wrappedNativeToken = f_wrappedNativeToken f\<rparr>
           | _ \<Rightarrow> None)
      | _ \<Rightarrow> None)"

definition hubAt :: "heap \<Rightarrow> ref \<Rightarrow> HubPoolUtils option" where
  "hubAt H this =
     (case cellAt H this of
        Some (HubPoolObject f) \<Rightarrow>
          (case cellAt H (f_hub_events f) of
             Some (EventArray es) \<Rightarrow>
               Some \<lparr>hub_address = f_hub_address f, hub_startBlock = f_hub_startBlock f,
                     hub_maxRange = f_hub_maxRange f, hub_events = es,
                     wethAddress = f_wethAddress f\<rparr>
           | _ \<Rightarrow> None)
      | _ \<Rightarrow> None)"

definition keeps :: "heap \<Rightarrow> heap \<Rightarrow> bool" where
  "keeps H H' = (length H \<le> length H' \<and> take (length H) H' = H)"

text \<open>
  What is asked of a view \<open>call\<close> on a heap \<open>H\<close> that holds the store \<open>storeAt H\<close>. The
  first call returns \<open>v\<close> in the heap \<open>H'\<close>, a second call right after it returns \<open>v'\<close> in
  the heap \<open>H''\<close>. Both calls keep every cell they found, the store read after either call
  is the store read before, and the two results, read in the last heap, are both the value
  \<open>expected\<close>.
\<close>

definition pure_view ::
  "(heap \<Rightarrow> 's option) \<Rightarrow> (heap \<Rightarrow> 'r \<times> heap) \<Rightarrow> (heap \<Rightarrow> 'r \<Rightarrow> 'a) \<Rightarrow> heap \<Rightarrow> 'a \<Rightarrow> bool" where
  "pure_view storeAt call denote H expected \<longleftrightarrow>
     (case call H of
        (v, H') \<Rightarrow>
          keeps H H' \<and> storeAt H' = storeAt H \<and> denote H' v = expected \<and>
          (case call H' of
             (v', H'') \<Rightarrow>
               keeps H' H'' \<and> storeAt H'' = storeAt H \<and>
               denote H'' v' = expected \<and> denote H'' v = expected))"

text \<open>
  Invariants of the loops. A table of strings as the properties of an object; and, for the
  objects that refer to other objects, a list \<open>G\<close> that gives for every key the reference
  stored under it together with what that reference holds. The references are at or above
  \<open>lo\<close>, the length of the heap the view found, and no two keys share one.
\<close>

definition strProps :: "('k \<times> string) list \<Rightarrow> ('k \<times> jsval) list" where
  "strProps tbl = map (\<lambda>p. (fst p, Str (snd p))) tbl"

definition repSets :: "nat \<Rightarrow> heap \<Rightarrow> ref \<Rightarrow> (nat \<times> ref \<times> address list) list \<Rightarrow> bool" where
  "repSets lo H r G \<longleftrightarrow>
     cellAt H r = Some (ChainObject (mapValues (\<lambda>x. Ref (fst x)) G)) \<and>
     distinct (map fst G) \<and> distinct (map (\<lambda>x. fst (snd x)) G) \<and>
     (\<forall>x \<in> set G. lo \<le> fst (snd x) \<and>
        cellAt H (fst (snd x)) = Some (SetObject (snd (snd x))))"

definition repArrays :: "heap \<Rightarrow> ref \<Rightarrow> (nat \<times> ref \<times> address list) list \<Rightarrow> bool" where
  "repArrays H v A \<longleftrightarrow>
     cellAt H v = Some (ChainObject (mapValues (\<lambda>x. Ref (fst x)) A)) \<and>
     (\<forall>x \<in> set A. cellAt H (fst (snd x)) = Some (ArrayObject (map Str (snd (snd x)))))"

type_synonym routes_ghost = "(nat \<times> ref \<times> (nat \<times> ref \<times> (address \<times> bool) list) list) list"

definition repRoutes :: "nat \<Rightarrow> heap \<Rightarrow> ref \<Rightarrow> routes_ghost \<Rightarrow> bool" where
  "repRoutes lo H r G \<longleftrightarrow>
     cellAt H r = Some (ChainObject (mapValues (\<lambda>x. Ref (fst x)) G)) \<and>
     distinct (map fst G) \<and> distinct (map (\<lambda>x. fst (snd x)) G) \<and>
     (\<forall>x \<in> set G.
        lo \<le> fst (snd x) \<and> fst (snd x) \<noteq> r \<and>
        cellAt H (fst (snd x))
          = Some (ChainObject (mapValues (\<lambda>y. Ref (fst y)) (snd (snd x)))) \<and>
        distinct (map fst (snd (snd x))) \<and>
        (\<forall>y \<in> set (snd (snd x)).
           lo \<le> fst (snd y) \<and>
           cellAt H (fst (snd y)) = Some (AddrObject (mapValues Bool (snd (snd y)))))) \<and>
     (\<forall>x \<in> set G. \<forall>x' \<in> set G. \<forall>y \<in> set (snd (snd x)). \<forall>y' \<in> set (snd (snd x')).
        fst (snd y) = fst (snd y') \<longrightarrow> fst x = fst x' \<and> fst y = fst y')"

definition eraseRefs ::
  "routes_ghost \<Rightarrow> (nat \<times> (nat \<times> (address \<times> bool) list) list) list" where
  "eraseRefs G = mapValues (\<lambda>x. mapValues snd (snd x)) G"

subsection \<open>Concrete stores and chains\<close>

text \<open>Small inputs on which the theorems below are instantiated.\<close>

definition ex_hub :: HubPoolUtils where
  "ex_hub = new_HubPoolUtils ''0xHub'' (Some 100) None"

definition ex_e1 :: event where
  "ex_e1 = \<lparr>args = CrossChainContractsSet 10 ''0xSpoke10'', blockNumber = 120,
            transactionIndex = 0, logIndex = 3, transactionHash = ''0xaa''\<rparr>"

definition ex_e2 :: event where
  "ex_e2 = \<lparr>args = L1TokenEnabledForLiquidityProvision ''0xL1'' ''0xLP'', blockNumber = 110,
            transactionIndex = 2, logIndex = 0, transactionHash = ''0xbb''\<rparr>"

definition ex_e3 :: event where
  "ex_e3 = \<lparr>args = SetPoolRebalanceRoute 10 ''0xL1'' ''0xTok'', blockNumber = 120,
            transactionIndex = 0, logIndex = 1, transactionHash = ''0xaa''\<rparr>"

definition ex_e4 :: event where
  "ex_e4 = \<lparr>args = L2TokenDisabledForLiquidityProvision ''0xL1'', blockNumber = 110,
            transactionIndex = 2, logIndex = 0, transactionHash = ''0xcc''\<rparr>"

definition ex_r1 :: event where
  "ex_r1 = \<lparr>args = EnabledDepositRoute ''0xWETH'' 137 True, blockNumber = 50,
            transactionIndex = 0, logIndex = 0, transactionHash = ''0xd1''\<rparr>"

definition ex_r2 :: event where
  "ex_r2 = \<lparr>args = EnabledDepositRoute ''0xTok'' 137 True, blockNumber = 51,
            transactionIndex = 0, logIndex = 0, transactionHash = ''0xd2''\<rparr>"

definition ex_r3 :: event where
  "ex_r3 = \<lparr>args = EnabledDepositRoute ''0xTok'' 42161 False, blockNumber = 52,
            transactionIndex = 0, logIndex = 0, transactionHash = ''0xd3''\<rparr>"

definition ex_r4 :: event where
  "ex_r4 = \<lparr>args = EnabledDepositRoute ''0xTok'' 137 False, blockNumber = 53,
            transactionIndex = 0, logIndex = 0, transactionHash = ''0xd4''\<rparr>"

definition ex_logs :: "string \<Rightarrow> int \<Rightarrow> int \<Rightarrow> int option \<Rightarrow> event list result" where
  "ex_logs k a b r =
     (if k = ''L1TokenEnabledForLiquidityProvision'' then Inr [ex_e2]
      else if k = ''CrossChainContractsSet'' then Inr [ex_e1]
      else if k = ''SetPoolRebalanceRoute'' then Inr [ex_e3]
      else if k = ''EnabledDepositRoute'' then Inr [ex_r1, ex_r2, ex_r3]
      else Inr [])"

definition ex_chain :: chain where
  "ex_chain = \<lparr>getBlockNumber = Inr 200, getNetwork = Inr (), incrementalEvents = ex_logs,
               contract_wrappedNativeToken = Inl (Rejected ''call revert''),
               contract_weth = Inr ''0xWETH'',
               contract_symbol = (\<lambda>a. if a = ''0xWETH'' then Inr ''WETH'' else Inr ''TOK'')\<rparr>"

definition ex_chain_dup :: chain where
  "ex_chain_dup =
     ex_chain\<lparr>incrementalEvents :=
       (\<lambda>k a b r. if k = ''L2TokenDisabledForLiquidityProvision'' then Inr [ex_e4]
                  else ex_logs k a b r)\<rparr>"

definition ex_chain_wnt :: chain where
  "ex_chain_wnt = ex_chain\<lparr>contract_wrappedNativeToken := Inr ''0xWETH''\<rparr>"

definition ex_chain_noweth :: chain where
  "ex_chain_noweth = ex_chain\<lparr>contract_weth := Inl (Rejected ''timeout'')\<rparr>"

definition ex_spoke :: SpokePoolUtils where
  "ex_spoke = new_SpokePoolUtils ''0xSpoke10'' None (Some 1000)"

definition ex_e5 :: event where
  "ex_e5 = \<lparr>args = L2TokenDisabledForLiquidityProvision ''0xL1'', blockNumber = 130,
            transactionIndex = 1, logIndex = 0, transactionHash = ''0xee''\<rparr>"

definition ex_e6 :: event where
  "ex_e6 = \<lparr>args = L1TokenEnabledForLiquidityProvision ''0xL1b'' ''0xLPb'', blockNumber = 140,
            transactionIndex = 0, logIndex = 0, transactionHash = ''0xff''\<rparr>"

definition ex_sd :: spokeData where
  "ex_sd = \<lparr>sd_fromSpokeAddress = ''0xSpoke10'', sd_fromChain = 10,
            sd_routes = [(137, [''0xWETH'', ''0xTok'']), (42161, [])],
            sd_symbols = [(''0xWETH'', ''WETH''), (''0xTok'', ''TOK'')],
            sd_wrappedNativeToken = ''0xWETH''\<rparr>"

definition ex_spokeTokenTable :: "(address \<times> address) list" where
  "ex_spokeTokenTable = [(''0xWETH'', ''0xL1WETH'')]"

definition ex_chain_down :: chain where
  "ex_chain_down = ex_chain\<lparr>getBlockNumber := Inl (Rejected ''network error'')\<rparr>"

definition ex_e7 :: event where
  "ex_e7 = \<lparr>args = SetEnableDepositRoute 10 137 ''0xTok'' True, blockNumber = 150,
            transactionIndex = 0, logIndex = 0, transactionHash = ''0xab''\<rparr>"

definition ex_spoke_store :: SpokePoolUtils where
  "ex_spoke_store = ex_spoke\<lparr>spoke_events := [ex_r1, ex_r2, ex_r3],
                      wrappedNativeToken := Some ''0xWETH''\<rparr>"

definition ex_hub_store :: HubPoolUtils where
  "ex_hub_store = ex_hub\<lparr>hub_events := [ex_e2, ex_e3, ex_e1, ex_e7],
                    wethAddress := Some ''0xWETH''\<rparr>"

text \<open>A heap that holds the two stores above, each with its log in a cell of its own.\<close>

definition ex_heap :: heap where
  "ex_heap =
     [SpokePoolObject \<lparr>f_spoke_address = ''0xSpoke10'', f_spoke_startBlock = 0,
                       f_spoke_maxRange = Some 1000, f_spoke_events = 1,
                       f_wrappedNativeToken = Some ''0xWETH''\<rparr>,
      EventArray [ex_r1, ex_r2, ex_r3],
      HubPoolObject \<lparr>f_hub_address = ''0xHub'', f_hub_startBlock = 100,
                     f_hub_maxRange = None, f_hub_events = 3,
                     f_wethAddress = Some ''0xWETH''\<rparr>,
      EventArray [ex_e2, ex_e3, ex_e1, ex_e7]]"

section \<open>Properties\<close>

subsection \<open>The comparator and the sort\<close>

lemma compareEvents_less:
  "orderingKey a < orderingKey b \<Longrightarrow> \<exists>d. compareEvents a b = Inr d \<and> d < 0"
  by (auto simp: compareEvents_def orderingKey_def less_prod_def)

lemma compareEvents_greater:
  "orderingKey b < orderingKey a \<Longrightarrow> \<exists>d. compareEvents a b = Inr d \<and> \<not> d < 0"
  by (auto simp: compareEvents_def orderingKey_def)

lemma compareEvents_tie:
  "orderingKey a = orderingKey b \<Longrightarrow> compareEvents a b = Inl (duplicateError a)"
  by (simp add: compareEvents_def orderingKey_def duplicateError_def)

lemma insertBy_fresh:
  "orderingKey x \<notin> orderingKey ` set ys \<Longrightarrow>
   insertBy compareEvents x ys = Inr (insort_key orderingKey x ys)"
proof (induction ys)
  case Nil
  then show ?case by simp
next
  case (Cons y ys)
  from Cons.prems have ne: "orderingKey x \<noteq> orderingKey y" by auto
  show ?case
  proof (cases "orderingKey x < orderingKey y")
    case True
    with compareEvents_less [OF True] show ?thesis by auto
  next
    case False
    with ne have gt: "orderingKey y < orderingKey x" by auto
    from Cons have "insertBy compareEvents x ys = Inr (insort_key orderingKey x ys)" by auto
    with compareEvents_greater [OF gt] gt show ?thesis by auto
  qed
qed

lemma insertBy_tied:
  "sorted (map orderingKey ys) \<Longrightarrow> orderingKey x \<in> orderingKey ` set ys \<Longrightarrow>
   insertBy compareEvents x ys = Inl (duplicateError x)"
proof (induction ys)
  case Nil
  then show ?case by simp
next
  case (Cons y ys)
  show ?case
  proof (cases "orderingKey x = orderingKey y")
    case True
    then show ?thesis by (simp add: compareEvents_tie)
  next
    case False
    with Cons.prems have mem: "orderingKey x \<in> orderingKey ` set ys" by auto
    with Cons.prems False have gt: "orderingKey y < orderingKey x" by auto
    from Cons mem have "insertBy compareEvents x ys = Inl (duplicateError x)" by auto
    with compareEvents_greater [OF gt] show ?thesis by auto
  qed
qed

lemma distinct_map_insort_key:
  "distinct (map f (insort_key f x xs)) = (f x \<notin> f ` set xs \<and> distinct (map f xs))"
  by (induction xs) (auto simp: set_insort_key)

lemma sortFrom_distinct:
  "distinct (map orderingKey (placed @ xs)) \<Longrightarrow>
   sortFrom compareEvents placed xs = Inr (fold (insort_key orderingKey) xs placed)"
proof (induction xs arbitrary: placed)
  case Nil
  then show ?case by simp
next
  case (Cons x xs)
  from Cons.prems have fresh: "orderingKey x \<notin> orderingKey ` set placed" by auto
  from Cons.prems have "distinct (map orderingKey (insort_key orderingKey x placed @ xs))"
    by (auto simp: distinct_map_insort_key set_insort_key)
  from Cons.IH [OF this] insertBy_fresh [OF fresh] show ?case by simp
qed

lemma sortBy_distinct:
  assumes "distinct (map orderingKey xs)"
  shows "sortBy compareEvents xs = Inr (sort_key orderingKey xs)"
proof -
  from assms have "inj_on orderingKey (set xs)" by (simp add: distinct_map)
  then have "sort_key orderingKey xs = fold (insort_key orderingKey) xs []"
    by (rule sort_key_conv_fold)
  with sortFrom_distinct [of "[]" xs] assms show ?thesis by (simp add: sortBy_def)
qed

lemma sortFrom_duplicate:
  "sorted (map orderingKey placed) \<Longrightarrow> distinct (map orderingKey placed) \<Longrightarrow>
   \<not> distinct (map orderingKey (placed @ xs)) \<Longrightarrow>
   \<exists>j < length xs. orderingKey (xs ! j) \<in> orderingKey ` set (placed @ take j xs) \<and>
      sortFrom compareEvents placed xs = Inl (duplicateError (xs ! j))"
proof (induction xs arbitrary: placed)
  case Nil
  then show ?case by simp
next
  case (Cons x xs)
  show ?case
  proof (cases "orderingKey x \<in> orderingKey ` set placed")
    case True
    with insertBy_tied [OF Cons.prems(1) True] show ?thesis
      by (intro exI [of _ 0]) simp
  next
    case False
    let ?p = "insort_key orderingKey x placed"
    have s: "sorted (map orderingKey ?p)" using Cons.prems(1) by (simp add: sorted_insort_key)
    have d: "distinct (map orderingKey ?p)" using Cons.prems(2) False
      by (simp add: distinct_map_insort_key)
    have nd: "\<not> distinct (map orderingKey (?p @ xs))"
      using Cons.prems(3) False by (auto simp: distinct_map_insort_key set_insort_key)
    from Cons.IH [OF s d nd] obtain j where j: "j < length xs"
      "orderingKey (xs ! j) \<in> orderingKey ` set (?p @ take j xs)"
      "sortFrom compareEvents ?p xs = Inl (duplicateError (xs ! j))" by blast
    with insertBy_fresh [OF False] show ?thesis
      by (intro exI [of _ "Suc j"]) (auto simp: set_insort_key)
  qed
qed

lemma sortBy_duplicate:
  assumes "\<not> distinct (map orderingKey xs)"
  shows "\<exists>i j. i < j \<and> j < length xs \<and> orderingKey (xs ! i) = orderingKey (xs ! j) \<and>
           sortBy compareEvents xs = Inl (duplicateError (xs ! j))"
proof -
  from sortFrom_duplicate [of "[]" xs] assms obtain j where j: "j < length xs"
    "orderingKey (xs ! j) \<in> orderingKey ` set (take j xs)"
    "sortBy compareEvents xs = Inl (duplicateError (xs ! j))" by (auto simp: sortBy_def)
  from j(2) obtain i where "i < length (take j xs)"
    "orderingKey (take j xs ! i) = orderingKey (xs ! j)"
    by (metis (no_types, lifting) imageE in_set_conv_nth)
  with j show ?thesis by (intro exI [of _ i] exI [of _ j]) auto
qed

lemma sort_key_unique:
  assumes d: "distinct (map orderingKey xs)" and m: "mset ys = mset xs"
  shows "sort_key orderingKey ys = sort_key orderingKey xs"
proof -
  let ?a = "sort_key orderingKey ys" and ?b = "sort_key orderingKey xs"
  from m have dy: "distinct (map orderingKey ys)"
    by (metis d distinct_map mset_eq_imp_distinct_iff mset_eq_setD)
  have s: "set ys = set xs" using m by (rule mset_eq_setD)
  have "map orderingKey ?a = map orderingKey ?b"
  proof (rule sorted_distinct_set_unique)
    show "sorted (map orderingKey ?a)" by simp
    show "sorted (map orderingKey ?b)" by simp
    show "distinct (map orderingKey ?a)" using dy by (simp add: distinct_map)
    show "distinct (map orderingKey ?b)" using d by (simp add: distinct_map)
    show "set (map orderingKey ?a) = set (map orderingKey ?b)" using s by simp
  qed
  moreover have "inj_on orderingKey (set ?a \<union> set ?b)" using d s by (simp add: distinct_map)
  ultimately show ?thesis by (rule map_inj_on)
qed

lemma hub_queries_length: "length (hub_queries h b) = 5"
  by (simp add: hub_queries_def)

lemma mapSeries_length: "mapSeries ps = Inr xs \<Longrightarrow> length xs = length ps"
  by (induction ps arbitrary: xs) (auto split: sum.splits)

text \<open>
  Claim C1. Let the provider report block \<open>n\<close> and the five ranged fetches of
  \<^verbatim>\<open>HubPoolUtils.fetchEvents\<close> return the sequences \<open>rs\<close>. If the ordering keys
  (block number, transaction index, log index) of the concatenation are pairwise different,
  the call returns and stores the concatenation sorted strictly ascending by that key, a
  permutation of it, and the same list results from any rearrangement of the fetched
  events. If two events of the concatenation have the same key, the call fails with the
  error \<^verbatim>\<open>Duplicate events found on transaction: \<close> followed by the transaction hash of
  one of two events with equal keys, and the stored log is left as it was.
\<close>

theorem hub_fetchEvents_sorted_or_duplicate:
  assumes "getBlockNumber c = Inr n"
      and "mapSeries (map (runQuery c) (hub_queries h (n - 1))) = Inr rs"
  shows "length rs = 5 \<and>
     (distinct (map orderingKey (concat rs)) \<longrightarrow>
        hub_fetchEvents c h =
          (Inr (sort_key orderingKey (concat rs)),
           h\<lparr>hub_events := sort_key orderingKey (concat rs)\<rparr>) \<and>
        sorted_wrt (<) (map orderingKey (sort_key orderingKey (concat rs))) \<and>
        mset (sort_key orderingKey (concat rs)) = mset (concat rs) \<and>
        (\<forall>ys. mset ys = mset (concat rs) \<longrightarrow>
           sortBy compareEvents ys = Inr (sort_key orderingKey (concat rs)))) \<and>
     (\<not> distinct (map orderingKey (concat rs)) \<longrightarrow>
        (\<exists>i j. i < j \<and> j < length (concat rs) \<and>
           orderingKey (concat rs ! i) = orderingKey (concat rs ! j) \<and>
           hub_fetchEvents c h = (Inl (duplicateError (concat rs ! j)), h)))"
proof (intro conjI impI allI)
  show "length rs = 5"
    using mapSeries_length [OF assms(2)] by (simp add: hub_queries_length)
next
  assume d: "distinct (map orderingKey (concat rs))"
  show "hub_fetchEvents c h =
          (Inr (sort_key orderingKey (concat rs)),
           h\<lparr>hub_events := sort_key orderingKey (concat rs)\<rparr>)"
    using assms sortBy_distinct [OF d] by (simp add: hub_fetchEvents_def)
  show "sorted_wrt (<) (map orderingKey (sort_key orderingKey (concat rs)))"
    using d by (simp add: strict_sorted_iff distinct_map flip: sorted_wrt_map)
  show "mset (sort_key orderingKey (concat rs)) = mset (concat rs)" by simp
  fix ys assume m: "mset ys = mset (concat rs)"
  then have "distinct (map orderingKey ys)"
    by (metis d distinct_map mset_eq_imp_distinct_iff mset_eq_setD)
  from sortBy_distinct [OF this] sort_key_unique [OF d m]
  show "sortBy compareEvents ys = Inr (sort_key orderingKey (concat rs))" by simp
next
  assume nd: "\<not> distinct (map orderingKey (concat rs))"
  from sortBy_duplicate [OF nd] obtain i j where ij: "i < j" "j < length (concat rs)"
    "orderingKey (concat rs ! i) = orderingKey (concat rs ! j)"
    "sortBy compareEvents (concat rs) = Inl (duplicateError (concat rs ! j))" by blast
  from ij(4) assms have "hub_fetchEvents c h = (Inl (duplicateError (concat rs ! j)), h)"
    by (simp add: hub_fetchEvents_def)
  with ij show "\<exists>i j. i < j \<and> j < length (concat rs) \<and>
           orderingKey (concat rs ! i) = orderingKey (concat rs ! j) \<and>
           hub_fetchEvents c h = (Inl (duplicateError (concat rs ! j)), h)" by blast
qed

lemmas ex_defs =
  ex_hub_def ex_e1_def ex_e2_def ex_e3_def ex_e4_def ex_logs_def ex_chain_def ex_chain_dup_def
  ex_r1_def ex_r2_def ex_r3_def ex_r4_def ex_chain_wnt_def ex_chain_noweth_def ex_spoke_def
  ex_e5_def ex_e6_def ex_sd_def ex_spokeTokenTable_def ex_chain_down_def

theorem hub_fetchEvents_sorted_or_duplicate_witness:
  "getBlockNumber ex_chain = Inr 200 \<and>
   mapSeries (map (runQuery ex_chain) (hub_queries ex_hub (200 - 1)))
     = Inr [[ex_e2], [], [], [ex_e1], [ex_e3]] \<and>
   hub_fetchEvents ex_chain ex_hub
     = (Inr [ex_e2, ex_e3, ex_e1], ex_hub\<lparr>hub_events := [ex_e2, ex_e3, ex_e1]\<rparr>) \<and>
   getBlockNumber ex_chain_dup = Inr 200 \<and>
   mapSeries (map (runQuery ex_chain_dup) (hub_queries ex_hub (200 - 1)))
     = Inr [[ex_e2], [ex_e4], [], [ex_e1], [ex_e3]] \<and>
   (\<exists>e \<in> {ex_e1, ex_e2, ex_e3, ex_e4}.
      hub_fetchEvents ex_chain_dup ex_hub = (Inl (duplicateError e), ex_hub))"
proof -
  have a1: "getBlockNumber ex_chain = Inr 200" by (simp add: ex_defs)
  have a2: "mapSeries (map (runQuery ex_chain) (hub_queries ex_hub (200 - 1)))
     = Inr [[ex_e2], [], [], [ex_e1], [ex_e3]]"
    by (simp add: ex_chain_def ex_logs_def hub_queries_def runQuery_def)
  have d: "distinct (map orderingKey (concat [[ex_e2], [], [], [ex_e1], [ex_e3]]))"
    by (simp add: orderingKey_def ex_defs)
  have s: "sort_key orderingKey (concat [[ex_e2], [], [], [ex_e1], [ex_e3]])
             = [ex_e2, ex_e3, ex_e1]"
    by (simp add: orderingKey_def ex_e1_def ex_e2_def ex_e3_def)
  have b1: "getBlockNumber ex_chain_dup = Inr 200" by (simp add: ex_defs)
  have b2: "mapSeries (map (runQuery ex_chain_dup) (hub_queries ex_hub (200 - 1)))
     = Inr [[ex_e2], [ex_e4], [], [ex_e1], [ex_e3]]"
    by (simp add: ex_chain_dup_def ex_chain_def ex_logs_def hub_queries_def runQuery_def)
  have nd: "\<not> distinct (map orderingKey (concat [[ex_e2], [ex_e4], [], [ex_e1], [ex_e3]]))"
    by (simp add: orderingKey_def ex_defs)
  from hub_fetchEvents_sorted_or_duplicate [OF a1 a2] d s
  have r1: "hub_fetchEvents ex_chain ex_hub
     = (Inr [ex_e2, ex_e3, ex_e1], ex_hub\<lparr>hub_events := [ex_e2, ex_e3, ex_e1]\<rparr>)"
    by simp
  from hub_fetchEvents_sorted_or_duplicate [OF b1 b2] nd
  obtain j where j: "j < length (concat [[ex_e2], [ex_e4], [], [ex_e1], [ex_e3]])"
    "hub_fetchEvents ex_chain_dup ex_hub
       = (Inl (duplicateError (concat [[ex_e2], [ex_e4], [], [ex_e1], [ex_e3]] ! j)), ex_hub)"
    by blast
  from j(1) have "concat [[ex_e2], [ex_e4], [], [ex_e1], [ex_e3]] ! j
      \<in> set (concat [[ex_e2], [ex_e4], [], [ex_e1], [ex_e3]])"
    by (rule nth_mem)
  then have "concat [[ex_e2], [ex_e4], [], [ex_e1], [ex_e3]] ! j \<in> {ex_e1, ex_e2, ex_e3, ex_e4}"
    by auto
  with j(2) have r2: "\<exists>e \<in> {ex_e1, ex_e2, ex_e3, ex_e4}.
      hub_fetchEvents ex_chain_dup ex_hub = (Inl (duplicateError e), ex_hub)" by blast
  from a1 a2 r1 b1 b2 r2 show ?thesis by blast
qed

subsection \<open>Fetching and updating\<close>


text \<open>
  Claim C8. When the provider reports block \<open>n\<close>, \<^verbatim>\<open>HubPoolUtils.fetchEvents\<close> sets up
  five ranged fetches, one per event kind, each from the store's start block to \<open>n - 1\<close>,
  and its outcome is determined by their answers; \<^verbatim>\<open>SpokePoolUtils.fetchEvents\<close> (once
  \<^verbatim>\<open>getNetwork\<close> has answered) sets up one fetch of \<^verbatim>\<open>EnabledDepositRoute\<close> from the
  store's start block to \<open>n\<close> itself and stores its answer.
\<close>

theorem fetchEvents_block_ranges:
  assumes "getBlockNumber c = Inr n"
  shows "map (\<lambda>q. (eventFilter q, fromBlock q, toBlock q, maxWidth q)) (hub_queries h (n - 1))
       = [(''L1TokenEnabledForLiquidityProvision'', hub_startBlock h, n - 1, hub_maxRange h),
          (''L2TokenDisabledForLiquidityProvision'', hub_startBlock h, n - 1, hub_maxRange h),
          (''SetEnableDepositRoute'', hub_startBlock h, n - 1, hub_maxRange h),
          (''CrossChainContractsSet'', hub_startBlock h, n - 1, hub_maxRange h),
          (''SetPoolRebalanceRoute'', hub_startBlock h, n - 1, hub_maxRange h)] \<and>
     hub_fetchEvents c h =
       (case mapSeries
          [incrementalEvents c ''L1TokenEnabledForLiquidityProvision''
             (hub_startBlock h) (n - 1) (hub_maxRange h),
           incrementalEvents c ''L2TokenDisabledForLiquidityProvision''
             (hub_startBlock h) (n - 1) (hub_maxRange h),
           incrementalEvents c ''SetEnableDepositRoute''
             (hub_startBlock h) (n - 1) (hub_maxRange h),
           incrementalEvents c ''CrossChainContractsSet''
             (hub_startBlock h) (n - 1) (hub_maxRange h),
           incrementalEvents c ''SetPoolRebalanceRoute''
             (hub_startBlock h) (n - 1) (hub_maxRange h)] of
          Inl e \<Rightarrow> (Inl e, h)
        | Inr rs \<Rightarrow>
            (case sortBy compareEvents (concat rs) of
               Inl e \<Rightarrow> (Inl e, h)
             | Inr evs \<Rightarrow> (Inr evs, h\<lparr>hub_events := evs\<rparr>))) \<and>
     (getNetwork c = Inr () \<longrightarrow>
        map (\<lambda>q. (eventFilter q, fromBlock q, toBlock q, maxWidth q)) (spoke_queries s n)
          = [(''EnabledDepositRoute'', spoke_startBlock s, n, spoke_maxRange s)] \<and>
        spoke_fetchEvents c s =
          (case incrementalEvents c ''EnabledDepositRoute''
                  (spoke_startBlock s) n (spoke_maxRange s) of
             Inl e \<Rightarrow> (Inl e, s)
           | Inr evs \<Rightarrow> (Inr evs, s\<lparr>spoke_events := evs\<rparr>)))"
proof (intro conjI impI)
  show "map (\<lambda>q. (eventFilter q, fromBlock q, toBlock q, maxWidth q)) (hub_queries h (n - 1))
       = [(''L1TokenEnabledForLiquidityProvision'', hub_startBlock h, n - 1, hub_maxRange h),
          (''L2TokenDisabledForLiquidityProvision'', hub_startBlock h, n - 1, hub_maxRange h),
          (''SetEnableDepositRoute'', hub_startBlock h, n - 1, hub_maxRange h),
          (''CrossChainContractsSet'', hub_startBlock h, n - 1, hub_maxRange h),
          (''SetPoolRebalanceRoute'', hub_startBlock h, n - 1, hub_maxRange h)]"
    by (simp add: hub_queries_def)
next
  show "hub_fetchEvents c h =
       (case mapSeries
          [incrementalEvents c ''L1TokenEnabledForLiquidityProvision''
             (hub_startBlock h) (n - 1) (hub_maxRange h),
           incrementalEvents c ''L2TokenDisabledForLiquidityProvision''
             (hub_startBlock h) (n - 1) (hub_maxRange h),
           incrementalEvents c ''SetEnableDepositRoute''
             (hub_startBlock h) (n - 1) (hub_maxRange h),
           incrementalEvents c ''CrossChainContractsSet''
             (hub_startBlock h) (n - 1) (hub_maxRange h),
           incrementalEvents c ''SetPoolRebalanceRoute''
             (hub_startBlock h) (n - 1) (hub_maxRange h)] of
          Inl e \<Rightarrow> (Inl e, h)
        | Inr rs \<Rightarrow>
            (case sortBy compareEvents (concat rs) of
               Inl e \<Rightarrow> (Inl e, h)
             | Inr evs \<Rightarrow> (Inr evs, h\<lparr>hub_events := evs\<rparr>)))"
    using assms by (simp add: hub_fetchEvents_def hub_queries_def runQuery_def Let_def)
next
  assume "getNetwork c = Inr ()"
  show "map (\<lambda>q. (eventFilter q, fromBlock q, toBlock q, maxWidth q)) (spoke_queries s n)
          = [(''EnabledDepositRoute'', spoke_startBlock s, n, spoke_maxRange s)]"
    by (simp add: spoke_queries_def)
  show "spoke_fetchEvents c s =
          (case incrementalEvents c ''EnabledDepositRoute''
                  (spoke_startBlock s) n (spoke_maxRange s) of
             Inl e \<Rightarrow> (Inl e, s)
           | Inr evs \<Rightarrow> (Inr evs, s\<lparr>spoke_events := evs\<rparr>))"
    using assms \<open>getNetwork c = Inr ()\<close>
    by (simp add: spoke_fetchEvents_def spoke_queries_def runQuery_def Let_def split: sum.splits)
qed

theorem fetchEvents_block_ranges_witness:
  "getBlockNumber ex_chain = Inr 200 \<and> getNetwork ex_chain = Inr () \<and>
   map toBlock (hub_queries ex_hub (200 - 1)) = [199, 199, 199, 199, 199] \<and>
   map fromBlock (hub_queries ex_hub (200 - 1)) = [100, 100, 100, 100, 100] \<and>
   map toBlock (spoke_queries ex_spoke 200) = [200] \<and>
   spoke_fetchEvents ex_chain ex_spoke
     = (Inr [ex_r1, ex_r2, ex_r3], ex_spoke\<lparr>spoke_events := [ex_r1, ex_r2, ex_r3]\<rparr>)"
proof -
  have a: "getBlockNumber ex_chain = Inr 200" by (simp add: ex_chain_def)
  have b: "getNetwork ex_chain = Inr ()" by (simp add: ex_chain_def)
  have l: "incrementalEvents ex_chain ''EnabledDepositRoute''
             (spoke_startBlock ex_spoke) 200 (spoke_maxRange ex_spoke) = Inr [ex_r1, ex_r2, ex_r3]"
    by (simp add: ex_chain_def ex_logs_def)
  have hq: "map toBlock (hub_queries ex_hub (200 - 1)) = [199, 199, 199, 199, 199] \<and>
   map fromBlock (hub_queries ex_hub (200 - 1)) = [100, 100, 100, 100, 100] \<and>
   map toBlock (spoke_queries ex_spoke 200) = [200]"
    by (simp add: hub_queries_def spoke_queries_def ex_hub_def new_HubPoolUtils_def)
  from fetchEvents_block_ranges [OF a, of ex_hub ex_spoke] b l hq a show ?thesis by simp
qed

text \<open>
  Claim C4. \<^verbatim>\<open>SpokePoolUtils.update\<close> fetches the events first: a failure there is the
  failure of the update. After a fetch that succeeded the update itself succeeds whatever
  the read of the wrapped native token does: a read that fails leaves the constant
  \<^verbatim>\<open>0x4200000000000000000000000000000000000006\<close> in \<^verbatim>\<open>wrappedNativeToken\<close>, a read
  that answers \<open>a\<close> leaves \<open>a\<close>.
\<close>

theorem spoke_update_wrappedNativeToken:
  "(\<forall>e s'. spoke_fetchEvents c s = (Inl e, s') \<longrightarrow> spoke_update c s = (Inl e, s')) \<and>
   (\<forall>evs s'. spoke_fetchEvents c s = (Inr evs, s') \<longrightarrow>
      (\<forall>e. contract_wrappedNativeToken c = Inl e \<longrightarrow>
         spoke_update c s =
           (Inr (), s'\<lparr>wrappedNativeToken :=
                         Some ''0x4200000000000000000000000000000000000006''\<rparr>)) \<and>
      (\<forall>a. contract_wrappedNativeToken c = Inr a \<longrightarrow>
         spoke_update c s = (Inr (), s'\<lparr>wrappedNativeToken := Some a\<rparr>)))"
  by (simp add: spoke_update_def fallbackWrappedNativeToken_def)

theorem spoke_update_wrappedNativeToken_witness:
  "spoke_fetchEvents ex_chain ex_spoke
     = (Inr [ex_r1, ex_r2, ex_r3], ex_spoke\<lparr>spoke_events := [ex_r1, ex_r2, ex_r3]\<rparr>) \<and>
   contract_wrappedNativeToken ex_chain = Inl (Rejected ''call revert'') \<and>
   wrappedNativeToken (snd (spoke_update ex_chain ex_spoke))
     = Some ''0x4200000000000000000000000000000000000006'' \<and>
   fst (spoke_update ex_chain ex_spoke) = Inr () \<and>
   spoke_fetchEvents ex_chain_wnt ex_spoke
     = (Inr [ex_r1, ex_r2, ex_r3], ex_spoke\<lparr>spoke_events := [ex_r1, ex_r2, ex_r3]\<rparr>) \<and>
   contract_wrappedNativeToken ex_chain_wnt = Inr ''0xWETH'' \<and>
   wrappedNativeToken (snd (spoke_update ex_chain_wnt ex_spoke)) = Some ''0xWETH'' \<and>
   spoke_fetchEvents ex_chain_down ex_spoke = (Inl (Rejected ''network error''), ex_spoke) \<and>
   spoke_update ex_chain_down ex_spoke = (Inl (Rejected ''network error''), ex_spoke)"
proof -
  have f1: "spoke_fetchEvents ex_chain ex_spoke
     = (Inr [ex_r1, ex_r2, ex_r3], ex_spoke\<lparr>spoke_events := [ex_r1, ex_r2, ex_r3]\<rparr>)"
    by (simp add: spoke_fetchEvents_def spoke_queries_def runQuery_def ex_chain_def ex_logs_def)
  have f2: "spoke_fetchEvents ex_chain_wnt ex_spoke
     = (Inr [ex_r1, ex_r2, ex_r3], ex_spoke\<lparr>spoke_events := [ex_r1, ex_r2, ex_r3]\<rparr>)"
    by (simp add: spoke_fetchEvents_def spoke_queries_def runQuery_def ex_chain_wnt_def
        ex_chain_def ex_logs_def)
  have r1: "contract_wrappedNativeToken ex_chain = Inl (Rejected ''call revert'')"
    by (simp add: ex_chain_def)
  have r2: "contract_wrappedNativeToken ex_chain_wnt = Inr ''0xWETH''"
    by (simp add: ex_chain_wnt_def)
  from spoke_update_wrappedNativeToken [of ex_chain ex_spoke] f1 r1
  have u1: "spoke_update ex_chain ex_spoke =
     (Inr (), ex_spoke\<lparr>spoke_events := [ex_r1, ex_r2, ex_r3],
        wrappedNativeToken := Some ''0x4200000000000000000000000000000000000006''\<rparr>)"
    by simp
  from spoke_update_wrappedNativeToken [of ex_chain_wnt ex_spoke] f2 r2
  have u2: "spoke_update ex_chain_wnt ex_spoke =
     (Inr (), ex_spoke\<lparr>spoke_events := [ex_r1, ex_r2, ex_r3],
        wrappedNativeToken := Some ''0xWETH''\<rparr>)"
    by simp
  have f3: "spoke_fetchEvents ex_chain_down ex_spoke
              = (Inl (Rejected ''network error''), ex_spoke)"
    by (simp add: spoke_fetchEvents_def ex_chain_down_def)
  from spoke_update_wrappedNativeToken [of ex_chain_down ex_spoke] f3
  have u3: "spoke_update ex_chain_down ex_spoke = (Inl (Rejected ''network error''), ex_spoke)"
    by simp
  from f1 f2 f3 r1 r2 u1 u2 u3 show ?thesis by simp
qed


lemma hub_fetchEvents_weth: "wethAddress (snd (hub_fetchEvents c h)) = wethAddress h"
  by (simp add: hub_fetchEvents_def Let_def split: sum.splits)

text \<open>
  Claim C7. On a store that was just constructed, and on any store whose weth address is
  unset, \<^verbatim>\<open>getWethAddress\<close> fails with the assertion \<^verbatim>\<open>weth address not set\<close>; an
  update that fails leaves the weth address as it was. \<^verbatim>\<open>HubPoolUtils.update\<close> fetches
  the events and then reads \<^verbatim>\<open>weth()\<close>: a failure of the fetch or of the read is the
  failure of the update, nothing is put in place of a failed read. After an update that
  succeeded, the contract having answered the address \<open>a\<close> (an address is never the empty
  string), \<^verbatim>\<open>getWethAddress\<close> returns \<open>a\<close>.
\<close>

theorem hub_update_getWethAddress:
  "getWethAddress (new_HubPoolUtils adr startBlock maxRange)
     = Inl (AssertionError ''weth address not set'') \<and>
   (wethAddress h = None \<longrightarrow> getWethAddress h = Inl (AssertionError ''weth address not set'')) \<and>
   (\<forall>e. fst (hub_update c h) = Inl e \<longrightarrow> wethAddress (snd (hub_update c h)) = wethAddress h) \<and>
   (\<forall>e h'. hub_fetchEvents c h = (Inl e, h') \<longrightarrow> hub_update c h = (Inl e, h')) \<and>
   (\<forall>evs h'. hub_fetchEvents c h = (Inr evs, h') \<longrightarrow>
      (\<forall>e. contract_weth c = Inl e \<longrightarrow> hub_update c h = (Inl e, h')) \<and>
      (\<forall>a. contract_weth c = Inr a \<longrightarrow>
         hub_update c h = (Inr (), h'\<lparr>wethAddress := Some a\<rparr>) \<and>
         (a \<noteq> [] \<longrightarrow> getWethAddress (snd (hub_update c h)) = Inr a)))"
proof (intro conjI allI impI)
  show "getWethAddress (new_HubPoolUtils adr startBlock maxRange)
     = Inl (AssertionError ''weth address not set'')"
    by (simp add: getWethAddress_def new_HubPoolUtils_def)
next
  assume "wethAddress h = None"
  then show "getWethAddress h = Inl (AssertionError ''weth address not set'')"
    by (simp add: getWethAddress_def)
next
  fix e assume "fst (hub_update c h) = Inl e"
  with hub_fetchEvents_weth [of c h]
  show "wethAddress (snd (hub_update c h)) = wethAddress h"
    by (auto simp: hub_update_def split: prod.splits sum.splits)
next
  fix e h' assume "hub_fetchEvents c h = (Inl e, h')"
  then show "hub_update c h = (Inl e, h')" by (simp add: hub_update_def)
next
  fix evs h' e assume "hub_fetchEvents c h = (Inr evs, h')" "contract_weth c = Inl e"
  then show "hub_update c h = (Inl e, h')" by (simp add: hub_update_def)
next
  fix evs h' a assume *: "hub_fetchEvents c h = (Inr evs, h')" "contract_weth c = Inr a"
  then show "hub_update c h = (Inr (), h'\<lparr>wethAddress := Some a\<rparr>)"
    by (simp add: hub_update_def)
  assume "a \<noteq> []"
  with * show "getWethAddress (snd (hub_update c h)) = Inr a"
    by (simp add: hub_update_def getWethAddress_def)
qed

theorem hub_update_getWethAddress_witness:
  "wethAddress ex_hub = None \<and>
   getWethAddress ex_hub = Inl (AssertionError ''weth address not set'') \<and>
   hub_fetchEvents ex_chain ex_hub
     = (Inr [ex_e2, ex_e3, ex_e1], ex_hub\<lparr>hub_events := [ex_e2, ex_e3, ex_e1]\<rparr>) \<and>
   contract_weth ex_chain = Inr ''0xWETH'' \<and> ''0xWETH'' \<noteq> [] \<and>
   fst (hub_update ex_chain ex_hub) = Inr () \<and>
   getWethAddress (snd (hub_update ex_chain ex_hub)) = Inr ''0xWETH'' \<and>
   hub_fetchEvents ex_chain_noweth ex_hub
     = (Inr [ex_e2, ex_e3, ex_e1], ex_hub\<lparr>hub_events := [ex_e2, ex_e3, ex_e1]\<rparr>) \<and>
   contract_weth ex_chain_noweth = Inl (Rejected ''timeout'') \<and>
   fst (hub_update ex_chain_noweth ex_hub) = Inl (Rejected ''timeout'') \<and>
   getWethAddress (snd (hub_update ex_chain_noweth ex_hub))
     = Inl (AssertionError ''weth address not set'') \<and>
   hub_fetchEvents ex_chain_down ex_hub = (Inl (Rejected ''network error''), ex_hub) \<and>
   hub_update ex_chain_down ex_hub = (Inl (Rejected ''network error''), ex_hub)"
proof -
  have n: "wethAddress ex_hub = None" by (simp add: ex_hub_def new_HubPoolUtils_def)
  have s: "sortBy compareEvents [ex_e2, ex_e1, ex_e3] = Inr [ex_e2, ex_e3, ex_e1]"
    by (simp add: sortBy_def compareEvents_def ex_e1_def ex_e2_def ex_e3_def)
  have f1: "hub_fetchEvents ex_chain ex_hub
     = (Inr [ex_e2, ex_e3, ex_e1], ex_hub\<lparr>hub_events := [ex_e2, ex_e3, ex_e1]\<rparr>)"
    using s by (simp add: hub_fetchEvents_def hub_queries_def runQuery_def ex_chain_def ex_logs_def)
  have f2: "hub_fetchEvents ex_chain_noweth ex_hub
     = (Inr [ex_e2, ex_e3, ex_e1], ex_hub\<lparr>hub_events := [ex_e2, ex_e3, ex_e1]\<rparr>)"
    using s by (simp add: hub_fetchEvents_def hub_queries_def runQuery_def ex_chain_noweth_def
        ex_chain_def ex_logs_def)
  have w1: "contract_weth ex_chain = Inr ''0xWETH''" by (simp add: ex_chain_def)
  have w2: "contract_weth ex_chain_noweth = Inl (Rejected ''timeout'')"
    by (simp add: ex_chain_noweth_def)
  have ne: "''0xWETH'' \<noteq> []" by simp
  from hub_update_getWethAddress [of "''0xHub''" "Some 100" None ex_hub ex_chain] n f1 w1 ne
  have u1: "getWethAddress ex_hub = Inl (AssertionError ''weth address not set'') \<and>
    fst (hub_update ex_chain ex_hub) = Inr () \<and>
    getWethAddress (snd (hub_update ex_chain ex_hub)) = Inr ''0xWETH''"
    by (simp add: getWethAddress_def)
  from hub_update_getWethAddress [of "''0xHub''" "Some 100" None ex_hub ex_chain_noweth] n f2 w2
  have u2: "fst (hub_update ex_chain_noweth ex_hub) = Inl (Rejected ''timeout'') \<and>
    getWethAddress (snd (hub_update ex_chain_noweth ex_hub))
     = Inl (AssertionError ''weth address not set'')"
    by (simp add: getWethAddress_def)
  have f3: "hub_fetchEvents ex_chain_down ex_hub = (Inl (Rejected ''network error''), ex_hub)"
    by (simp add: hub_fetchEvents_def ex_chain_down_def)
  from hub_update_getWethAddress [of "''0xHub''" "Some 100" None ex_hub ex_chain_down] f3
  have u3: "hub_update ex_chain_down ex_hub = (Inl (Rejected ''network error''), ex_hub)"
    by simp
  from n f1 f2 f3 w1 w2 ne u1 u2 u3 show ?thesis by simp
qed

subsection \<open>The route table of a spoke\<close>


lemma map_of_modifyProp:
  "map_of (modifyProp k f ps) k' = (if k' = k then map_option f (map_of ps k) else map_of ps k')"
  by (induction ps) (auto simp: modifyProp_def)

lemma keys_modifyProp: "map fst (modifyProp k f ps) = map fst ps"
  by (induction ps) (auto simp: modifyProp_def)

lemma map_of_addChainProp:
  "map_of ps k = None \<Longrightarrow> map_of (addChainProp k v ps) k' = (if k' = k then Some v else map_of ps k')"
  by (induction ps) (auto split: if_splits)

lemma set_addChainProp: "set (addChainProp k v ps) = insert (k, v) (set ps)"
  by (induction ps) (auto split: if_splits)

lemma distinct_addChainProp:
  "map_of ps k = None \<Longrightarrow> distinct (map fst ps) \<Longrightarrow> distinct (map fst (addChainProp k v ps))"
  by (induction ps) (auto simp: set_addChainProp split: if_splits)

lemma map_of_setChainProp:
  "map_of (setChainProp k v ps) k' = (if k' = k then Some v else map_of ps k')"
  by (auto simp: setChainProp_def map_of_addChainProp map_of_modifyProp)

lemma distinct_setChainProp:
  "distinct (map fst ps) \<Longrightarrow> distinct (map fst (setChainProp k v ps))"
  by (simp add: setChainProp_def distinct_addChainProp keys_modifyProp)

lemma set_setAdd: "set (setAdd x s) = insert x (set s)"
  by (auto simp: setAdd_def)

lemma set_setDelete: "set (setDelete x s) = set s - {x}"
  by (auto simp: setDelete_def)

lemma map_of_routesEnabled_step:
  "map_of (routesEnabled_step r e) c =
     (case args e of
        EnabledDepositRoute t c' b \<Rightarrow>
          if c' = c then Some ((if b then setAdd t else setDelete t) (tokensOf r c))
          else map_of r c
      | _ \<Rightarrow> map_of r c)"
  by (auto simp: routesEnabled_step_def tokensOf_def map_of_modifyProp map_of_setChainProp Let_def
      split: event_args.splits option.splits)

lemma distinct_routesEnabled_step:
  "distinct (map fst r) \<Longrightarrow> distinct (map fst (routesEnabled_step r e))"
  by (auto simp: routesEnabled_step_def keys_modifyProp distinct_setChainProp Let_def
      split: event_args.splits)

lemma distinct_routesEnabled_fold:
  "distinct (map fst r) \<Longrightarrow> distinct (map fst (foldl routesEnabled_step r es))"
  by (induction es arbitrary: r) (auto simp: distinct_routesEnabled_step)

lemma tokensOf_routesEnabled_step:
  "t \<in> set (tokensOf (routesEnabled_step r e) c) \<longleftrightarrow>
     (case lastSetting c t [e] of Some b \<Rightarrow> b | None \<Rightarrow> t \<in> set (tokensOf r c))"
  by (auto simp: tokensOf_def map_of_routesEnabled_step set_setAdd set_setDelete
      split: event_args.splits option.splits)

lemma tokensOf_routesEnabled_fold:
  "t \<in> set (tokensOf (foldl routesEnabled_step r es) c) \<longleftrightarrow>
     (case lastSetting c t es of Some b \<Rightarrow> b | None \<Rightarrow> t \<in> set (tokensOf r c))"
proof (induction es arbitrary: r)
  case Nil
  then show ?case by simp
next
  case (Cons e es)
  have "t \<in> set (tokensOf (foldl routesEnabled_step r (e # es)) c) \<longleftrightarrow>
     (case lastSetting c t es of Some b \<Rightarrow> b
      | None \<Rightarrow> t \<in> set (tokensOf (routesEnabled_step r e) c))"
    using Cons.IH [of "routesEnabled_step r e"] by simp
  then show ?case
    by (simp add: tokensOf_routesEnabled_step split: option.splits)
qed

lemma key_routesEnabled_fold:
  "map_of (foldl routesEnabled_step r es) c \<noteq> None \<longleftrightarrow>
     map_of r c \<noteq> None \<or> (\<exists>e \<in> set es. \<exists>t b. args e = EnabledDepositRoute t c b)"
proof (induction es arbitrary: r)
  case Nil
  then show ?case by simp
next
  case (Cons e es)
  have "map_of (routesEnabled_step r e) c \<noteq> None \<longleftrightarrow>
          map_of r c \<noteq> None \<or> (\<exists>t b. args e = EnabledDepositRoute t c b)"
    by (auto simp: map_of_routesEnabled_step split: event_args.splits)
  with Cons.IH [of "routesEnabled_step r e"] show ?case by auto
qed

lemma lastSetting_append:
  "lastSetting c t (es @ fs) =
     (case lastSetting c t fs of Some b \<Rightarrow> Some b | None \<Rightarrow> lastSetting c t es)"
  by (induction es) (auto split: option.splits)


text \<open>
  Claim C2. \<^verbatim>\<open>routesEnabled\<close> replays the log from left to right, one step per event.
  A step for an \<^verbatim>\<open>EnabledDepositRoute\<close> event of token \<open>t\<close> and destination \<open>c\<close> inserts
  \<open>t\<close> into the set of \<open>c\<close> when \<^verbatim>\<open>enabled\<close> is true and removes it otherwise (nothing
  changes when \<open>t\<close> is not a member), and leaves the other destinations alone. So \<open>t\<close>
  is listed for \<open>c\<close> exactly when the last event of the log for that pair is an enabling
  one: after any log followed by [enable, disable] the token is absent, after any log
  followed by [disable, enable] it is present. No assumption on the ordering keys is
  needed.
\<close>

theorem routesEnabled_order_dependent:
  "routesEnabled (s\<lparr>spoke_events := es @ [e]\<rparr>)
     = routesEnabled_step (routesEnabled (s\<lparr>spoke_events := es\<rparr>)) e \<and>
   (\<forall>t c b. args e = EnabledDepositRoute t c b \<longrightarrow>
      set (tokensOf (routesEnabled_step r e) c)
        = (if b then insert t (set (tokensOf r c)) else set (tokensOf r c) - {t}) \<and>
      (\<forall>c'. c' \<noteq> c \<longrightarrow> map_of (routesEnabled_step r e) c' = map_of r c')) \<and>
   (t \<in> set (tokensOf (routesEnabled s) c) \<longleftrightarrow> lastSetting c t (spoke_events s) = Some True) \<and>
   (args en = EnabledDepositRoute t c True \<and> args dis = EnabledDepositRoute t c False \<longrightarrow>
      t \<notin> set (tokensOf (routesEnabled (s\<lparr>spoke_events := pre @ [en, dis]\<rparr>)) c) \<and>
      t \<in> set (tokensOf (routesEnabled (s\<lparr>spoke_events := pre @ [dis, en]\<rparr>)) c))"
proof (intro conjI allI impI)
  show "routesEnabled (s\<lparr>spoke_events := es @ [e]\<rparr>)
     = routesEnabled_step (routesEnabled (s\<lparr>spoke_events := es\<rparr>)) e"
    by (simp add: routesEnabled_def)
next
  fix t c b assume a: "args e = EnabledDepositRoute t c b"
  then show "set (tokensOf (routesEnabled_step r e) c)
        = (if b then insert t (set (tokensOf r c)) else set (tokensOf r c) - {t})"
    by (simp add: tokensOf_def map_of_routesEnabled_step set_setAdd set_setDelete)
  fix c' assume "c' \<noteq> c"
  with a show "map_of (routesEnabled_step r e) c' = map_of r c'"
    by (simp add: map_of_routesEnabled_step)
next
  show "t \<in> set (tokensOf (routesEnabled s) c) \<longleftrightarrow> lastSetting c t (spoke_events s) = Some True"
    using tokensOf_routesEnabled_fold [of t "[]" "spoke_events s" c]
    by (auto simp: routesEnabled_def tokensOf_def split: option.splits)
next
  assume a: "args en = EnabledDepositRoute t c True \<and> args dis = EnabledDepositRoute t c False"
  then have "lastSetting c t (pre @ [en, dis]) = Some False"
    by (simp add: lastSetting_append)
  then show "t \<notin> set (tokensOf (routesEnabled (s\<lparr>spoke_events := pre @ [en, dis]\<rparr>)) c)"
    using tokensOf_routesEnabled_fold [of t "[]" "pre @ [en, dis]" c]
    by (simp add: routesEnabled_def)
  from a have "lastSetting c t (pre @ [dis, en]) = Some True"
    by (simp add: lastSetting_append)
  then show "t \<in> set (tokensOf (routesEnabled (s\<lparr>spoke_events := pre @ [dis, en]\<rparr>)) c)"
    using tokensOf_routesEnabled_fold [of t "[]" "pre @ [dis, en]" c]
    by (simp add: routesEnabled_def)
qed

lemmas table_defs =
  routesEnabled_def routesEnabled_step_def setChainProp_def modifyProp_def setAdd_def
  setDelete_def isArrayIndex_def

theorem routesEnabled_order_dependent_witness:
  "args ex_r2 = EnabledDepositRoute ''0xTok'' 137 True \<and>
   args ex_r4 = EnabledDepositRoute ''0xTok'' 137 False \<and>
   routesEnabled (ex_spoke\<lparr>spoke_events := [ex_r1] @ [ex_r2, ex_r4]\<rparr>) = [(137, [''0xWETH''])] \<and>
   routesEnabled (ex_spoke\<lparr>spoke_events := [ex_r1] @ [ex_r4, ex_r2]\<rparr>)
     = [(137, [''0xWETH'', ''0xTok''])] \<and>
   ''0xTok'' \<notin> set (tokensOf (routesEnabled (ex_spoke\<lparr>spoke_events := [ex_r1] @ [ex_r2, ex_r4]\<rparr>)) 137) \<and>
   ''0xTok'' \<in> set (tokensOf (routesEnabled (ex_spoke\<lparr>spoke_events := [ex_r1] @ [ex_r4, ex_r2]\<rparr>)) 137) \<and>
   set (tokensOf (routesEnabled_step [(137, [''0xWETH''])] ex_r2) 137) = {''0xTok'', ''0xWETH''} \<and>
   set (tokensOf (routesEnabled_step [(137, [''0xWETH''])] ex_r4) 137) = {''0xWETH''}"
proof -
  have a: "args ex_r2 = EnabledDepositRoute ''0xTok'' 137 True \<and>
           args ex_r4 = EnabledDepositRoute ''0xTok'' 137 False"
    by (simp add: ex_r2_def ex_r4_def)
  have b: "routesEnabled (ex_spoke\<lparr>spoke_events := [ex_r1] @ [ex_r2, ex_r4]\<rparr>) = [(137, [''0xWETH''])]"
    by (simp add: table_defs ex_r1_def ex_r2_def ex_r4_def)
  have c: "routesEnabled (ex_spoke\<lparr>spoke_events := [ex_r1] @ [ex_r4, ex_r2]\<rparr>)
     = [(137, [''0xWETH'', ''0xTok''])]"
    by (simp add: table_defs ex_r1_def ex_r2_def ex_r4_def)
  from routesEnabled_order_dependent
    [where s = ex_spoke and t = "''0xTok''" and c = 137 and en = ex_r2 and dis = ex_r4
       and pre = "[ex_r1]"] a
  have "''0xTok'' \<notin> set (tokensOf (routesEnabled (ex_spoke\<lparr>spoke_events := [ex_r1] @ [ex_r2, ex_r4]\<rparr>)) 137) \<and>
   ''0xTok'' \<in> set (tokensOf (routesEnabled (ex_spoke\<lparr>spoke_events := [ex_r1] @ [ex_r4, ex_r2]\<rparr>)) 137)"
    by blast
  moreover
  have a2: "args ex_r2 = EnabledDepositRoute ''0xTok'' 137 True"
    and a4: "args ex_r4 = EnabledDepositRoute ''0xTok'' 137 False"
    using a by simp_all
  from routesEnabled_order_dependent
         [where e = ex_r2 and r = "[(137, [''0xWETH''])]" and s = ex_spoke and es = "[]"
            and t = "''0xTok''" and c = 137 and en = ex_r2 and dis = ex_r4 and pre = "[]",
          THEN conjunct2, THEN conjunct1, rule_format, OF a2]
  have "set (tokensOf (routesEnabled_step [(137, [''0xWETH''])] ex_r2) 137)
          = {''0xTok'', ''0xWETH''}"
    by (simp add: tokensOf_def)
  moreover
  from routesEnabled_order_dependent
         [where e = ex_r4 and r = "[(137, [''0xWETH''])]" and s = ex_spoke and es = "[]"
            and t = "''0xTok''" and c = 137 and en = ex_r2 and dis = ex_r4 and pre = "[]",
          THEN conjunct2, THEN conjunct1, rule_format, OF a4]
  have "set (tokensOf (routesEnabled_step [(137, [''0xWETH''])] ex_r4) 137) = {''0xWETH''}"
    by (simp add: tokensOf_def)
  ultimately show ?thesis using a b c by blast
qed

lemma set_foldl_setAdd: "set (foldl (\<lambda>tokens token. setAdd token tokens) acc xs) = set acc \<union> set xs"
  by (induction xs arbitrary: acc) (auto simp: set_setAdd)

lemma concat_without_empty:
  "\<forall>p \<in> set ps. fst p = c \<longrightarrow> snd p = [] \<Longrightarrow>
   concat (map snd (filter (\<lambda>p. fst p \<noteq> c) ps)) = concat (map snd ps)"
  by (induction ps) auto

lemma distinct_routesEnabled: "distinct (map fst (routesEnabled s))"
  by (simp add: routesEnabled_def distinct_routesEnabled_fold)

text \<open>
  Claim C10. Let the log hold a disabling \<^verbatim>\<open>EnabledDepositRoute\<close> event for destination
  \<open>c\<close>, and let no token end enabled for \<open>c\<close> (for no token is the last event of the
  pair an enabling one). Then \<^verbatim>\<open>routesEnabled\<close> has the key \<open>c\<close> with the empty list,
  \<^verbatim>\<open>getSupportedChains\<close> lists the number \<^verbatim>\<open>Number\<close> reads from that key (\<open>c\<close> itself
  when \<open>c < 2^53\<close>), and \<^verbatim>\<open>getSupportedTokens\<close> is what it would be without the entry
  of \<open>c\<close>: its members are the tokens that end enabled for some destination.
\<close>

theorem routesEnabled_keeps_emptied_chain:
  assumes "e \<in> set (spoke_events s)" and "args e = EnabledDepositRoute t c False"
      and "\<forall>t'. lastSetting c t' (spoke_events s) \<noteq> Some True"
  shows "map_of (routesEnabled s) c = Some [] \<and> (c, []) \<in> set (routesEnabled s) \<and>
     Number c \<in> set (getSupportedChains s) \<and>
     (c < 2 ^ 53 \<longrightarrow> c \<in> set (getSupportedChains s)) \<and>
     getSupportedTokens s
       = foldl (\<lambda>tokens token. setAdd token tokens) []
           (concat (map snd (filter (\<lambda>p. fst p \<noteq> c) (routesEnabled s)))) \<and>
     set (getSupportedTokens s) = {t'. \<exists>c'. lastSetting c' t' (spoke_events s) = Some True}"
proof -
  have key: "map_of (routesEnabled s) c \<noteq> None"
    using assms(1,2) key_routesEnabled_fold [of "[]" "spoke_events s" c]
    by (auto simp: routesEnabled_def)
  then obtain ts where ts: "map_of (routesEnabled s) c = Some ts" by auto
  have mem: "\<And>t' c'. t' \<in> set (tokensOf (routesEnabled s) c')
                 \<longleftrightarrow> lastSetting c' t' (spoke_events s) = Some True"
    using tokensOf_routesEnabled_fold [of _ "[]" "spoke_events s"]
    by (auto simp: routesEnabled_def tokensOf_def split: option.splits)
  from mem [of _ c] assms(3) ts have "\<forall>t'. t' \<notin> set ts" by (simp add: tokensOf_def)
  then have "ts = []" by (cases ts) auto
  with ts have m: "map_of (routesEnabled s) c = Some []" by simp
  then have el: "(c, []) \<in> set (routesEnabled s)" by (rule map_of_SomeD)
  then have n: "Number c \<in> set (getSupportedChains s)"
    by (force simp: getSupportedChains_def)
  have all: "\<forall>p \<in> set (routesEnabled s). fst p = c \<longrightarrow> snd p = []"
  proof (intro ballI impI)
    fix p assume "p \<in> set (routesEnabled s)" "fst p = c"
    then have "(c, snd p) \<in> set (routesEnabled s)" by (cases p) auto
    with distinct_routesEnabled [of s] have "map_of (routesEnabled s) c = Some (snd p)"
      by (rule map_of_is_SomeI)
    with m show "snd p = []" by simp
  qed
  have toks: "\<And>t'. t' \<in> set (getSupportedTokens s)
                  \<longleftrightarrow> (\<exists>c'. t' \<in> set (tokensOf (routesEnabled s) c'))"
  proof -
    fix t'
    have "t' \<in> set (getSupportedTokens s)
            \<longleftrightarrow> (\<exists>p \<in> set (routesEnabled s). t' \<in> set (snd p))"
      by (auto simp: getSupportedTokens_def set_foldl_setAdd)
    also have "\<dots> \<longleftrightarrow> (\<exists>c'. t' \<in> set (tokensOf (routesEnabled s) c'))"
    proof
      assume "\<exists>p \<in> set (routesEnabled s). t' \<in> set (snd p)"
      then obtain c' ts' where "(c', ts') \<in> set (routesEnabled s)" "t' \<in> set ts'" by auto
      with distinct_routesEnabled [of s] have "t' \<in> set (tokensOf (routesEnabled s) c')"
        by (simp add: tokensOf_def)
      then show "\<exists>c'. t' \<in> set (tokensOf (routesEnabled s) c')" ..
    next
      assume "\<exists>c'. t' \<in> set (tokensOf (routesEnabled s) c')"
      then obtain c' where "t' \<in> set (tokensOf (routesEnabled s) c')" ..
      then obtain ts' where "map_of (routesEnabled s) c' = Some ts'" "t' \<in> set ts'"
        by (cases "map_of (routesEnabled s) c'") (auto simp: tokensOf_def)
      then have "(c', ts') \<in> set (routesEnabled s)" "t' \<in> set (snd (c', ts'))"
        by (auto dest: map_of_SomeD)
      then show "\<exists>p \<in> set (routesEnabled s). t' \<in> set (snd p)" by blast
    qed
    finally show "t' \<in> set (getSupportedTokens s)
                  \<longleftrightarrow> (\<exists>c'. t' \<in> set (tokensOf (routesEnabled s) c'))" .
  qed
  have "set (getSupportedTokens s) = {t'. \<exists>c'. lastSetting c' t' (spoke_events s) = Some True}"
    using toks mem by auto
  moreover have "getSupportedTokens s
       = foldl (\<lambda>tokens token. setAdd token tokens) []
           (concat (map snd (filter (\<lambda>p. fst p \<noteq> c) (routesEnabled s))))"
    using concat_without_empty [OF all] by (simp add: getSupportedTokens_def)
  moreover have "c < 2 ^ 53 \<longrightarrow> c \<in> set (getSupportedChains s)"
    using n by (auto simp: Number_def)
  ultimately show ?thesis using m el n by blast
qed

theorem routesEnabled_keeps_emptied_chain_witness:
  "ex_r3 \<in> set (spoke_events (ex_spoke\<lparr>spoke_events := [ex_r1, ex_r2, ex_r3]\<rparr>)) \<and>
   args ex_r3 = EnabledDepositRoute ''0xTok'' 42161 False \<and>
   (\<forall>t'. lastSetting 42161 t' (spoke_events (ex_spoke\<lparr>spoke_events := [ex_r1, ex_r2, ex_r3]\<rparr>))
            \<noteq> Some True) \<and>
   routesEnabled (ex_spoke\<lparr>spoke_events := [ex_r1, ex_r2, ex_r3]\<rparr>)
     = [(137, [''0xWETH'', ''0xTok'']), (42161, [])] \<and>
   getSupportedChains (ex_spoke\<lparr>spoke_events := [ex_r1, ex_r2, ex_r3]\<rparr>) = [137, 42161] \<and>
   getSupportedTokens (ex_spoke\<lparr>spoke_events := [ex_r1, ex_r2, ex_r3]\<rparr>) = [''0xWETH'', ''0xTok''] \<and>
   map_of (routesEnabled (ex_spoke\<lparr>spoke_events := [ex_r1, ex_r2, ex_r3]\<rparr>)) 42161 = Some [] \<and>
   42161 \<in> set (getSupportedChains (ex_spoke\<lparr>spoke_events := [ex_r1, ex_r2, ex_r3]\<rparr>))"
proof -
  let ?s = "ex_spoke\<lparr>spoke_events := [ex_r1, ex_r2, ex_r3]\<rparr>"
  have a: "ex_r3 \<in> set (spoke_events ?s)" by simp
  have b: "args ex_r3 = EnabledDepositRoute ''0xTok'' 42161 False" by (simp add: ex_r3_def)
  have c: "\<forall>t'. lastSetting 42161 t' (spoke_events ?s) \<noteq> Some True"
    by (simp add: ex_r1_def ex_r2_def ex_r3_def)
  have r: "routesEnabled ?s = [(137, [''0xWETH'', ''0xTok'']), (42161, [])]"
    by (simp add: table_defs ex_r1_def ex_r2_def ex_r3_def)
  have g: "getSupportedChains ?s = [137, 42161]"
    by (simp add: getSupportedChains_def r Number_def)
  have k: "getSupportedTokens ?s = [''0xWETH'', ''0xTok'']"
    by (simp add: getSupportedTokens_def r setAdd_def)
  have lt: "(42161::nat) < 2 ^ 53" by simp
  from routesEnabled_keeps_emptied_chain [OF a b c] lt
  have "map_of (routesEnabled ?s) 42161 = Some [] \<and> 42161 \<in> set (getSupportedChains ?s)"
    by blast
  with a b c r g k show ?thesis by blast
qed

subsection \<open>The token table of the hub\<close>


lemma map_of_setProp:
  "map_of (setProp k v ps) k' = (if k' = k then Some v else map_of ps k')"
  by (induction ps) auto

lemma map_of_deleteProp:
  "map_of (deleteProp k ps) k' = (if k' = k then None else map_of ps k')"
  by (induction ps) (auto simp: deleteProp_def)

lemma map_of_getL1LpTokenTable_step:
  "map_of (getL1LpTokenTable_step r e) x =
     (case args e of
        L1TokenEnabledForLiquidityProvision l1 lp \<Rightarrow> if l1 = x then Some lp else map_of r x
      | L2TokenDisabledForLiquidityProvision l1 \<Rightarrow> if l1 = x then None else map_of r x
      | _ \<Rightarrow> map_of r x)"
  by (simp add: getL1LpTokenTable_step_def map_of_setProp map_of_deleteProp
      split: event_args.splits)

lemma getL1LpTokenTable_fold_absent:
  "map_of r x = None \<Longrightarrow>
   \<forall>e \<in> set es. \<forall>y. args e \<noteq> L1TokenEnabledForLiquidityProvision x y \<Longrightarrow>
   map_of (foldl getL1LpTokenTable_step r es) x = None"
proof (induction es arbitrary: r)
  case Nil
  then show ?case by simp
next
  case (Cons e es)
  from Cons.prems have "map_of (getL1LpTokenTable_step r e) x = None"
    by (auto simp: map_of_getL1LpTokenTable_step split: event_args.splits)
  with Cons.IH [of "getL1LpTokenTable_step r e"] Cons.prems(2) show ?case by simp
qed

text \<open>
  Claim C6. Let the stored hub log hold an \<^verbatim>\<open>L2TokenDisabledForLiquidityProvision\<close> event
  for the token \<open>x\<close> with no \<^verbatim>\<open>L1TokenEnabledForLiquidityProvision\<close> event for \<open>x\<close> after
  it. Then \<^verbatim>\<open>getL1LpTokenTable\<close> has no property \<open>x\<close> at all and \<^verbatim>\<open>getL1Tokens\<close> does not
  list \<open>x\<close>, whatever came before the disabling event; while a log that ends with the enabling
  of \<open>x\<close> with LP token \<open>y\<close> gives a table that maps \<open>x\<close> to \<open>y\<close> and lists \<open>x\<close>.
\<close>

theorem getL1LpTokenTable_disable_removes:
  assumes "hub_events h = pre @ d # post"
      and "args d = L2TokenDisabledForLiquidityProvision x"
      and "\<forall>e \<in> set post. \<forall>y. args e \<noteq> L1TokenEnabledForLiquidityProvision x y"
  shows "map_of (getL1LpTokenTable h) x = None \<and>
         x \<notin> fst ` set (getL1LpTokenTable h) \<and>
         x \<notin> set (getL1Tokens h) \<and>
         (\<forall>en y. args en = L1TokenEnabledForLiquidityProvision x y \<longrightarrow>
            map_of (getL1LpTokenTable (h\<lparr>hub_events := pre @ [en]\<rparr>)) x = Some y \<and>
            x \<in> set (getL1Tokens (h\<lparr>hub_events := pre @ [en]\<rparr>)))"
proof -
  have "map_of (getL1LpTokenTable_step (foldl getL1LpTokenTable_step [] pre) d) x = None"
    using assms(2) by (simp add: map_of_getL1LpTokenTable_step)
  from getL1LpTokenTable_fold_absent [OF this assms(3)] assms(1)
  have m: "map_of (getL1LpTokenTable h) x = None" by (simp add: getL1LpTokenTable_def)
  then have k: "x \<notin> fst ` set (getL1LpTokenTable h)" by (simp add: map_of_eq_None_iff)
  then have l: "x \<notin> set (getL1Tokens h)" by (simp add: getL1Tokens_def)
  have "\<forall>en y. args en = L1TokenEnabledForLiquidityProvision x y \<longrightarrow>
            map_of (getL1LpTokenTable (h\<lparr>hub_events := pre @ [en]\<rparr>)) x = Some y \<and>
            x \<in> set (getL1Tokens (h\<lparr>hub_events := pre @ [en]\<rparr>))"
  proof (intro allI impI)
    fix en :: event and y assume "args en = L1TokenEnabledForLiquidityProvision x y"
    then have s: "map_of (getL1LpTokenTable (h\<lparr>hub_events := pre @ [en]\<rparr>)) x = Some y"
      by (simp add: getL1LpTokenTable_def map_of_getL1LpTokenTable_step)
    then have "x \<in> fst ` set (getL1LpTokenTable (h\<lparr>hub_events := pre @ [en]\<rparr>))"
      by (metis map_of_eq_None_iff option.distinct(1))
    with s show "map_of (getL1LpTokenTable (h\<lparr>hub_events := pre @ [en]\<rparr>)) x = Some y \<and>
            x \<in> set (getL1Tokens (h\<lparr>hub_events := pre @ [en]\<rparr>))"
      by (simp add: getL1Tokens_def)
  qed
  with m k l show ?thesis by blast
qed

theorem getL1LpTokenTable_disable_removes_witness:
  "hub_events (ex_hub\<lparr>hub_events := [ex_e2, ex_e3, ex_e1, ex_e5, ex_e6]\<rparr>)
     = [ex_e2, ex_e3, ex_e1] @ ex_e5 # [ex_e6] \<and>
   args ex_e5 = L2TokenDisabledForLiquidityProvision ''0xL1'' \<and>
   args ex_e6 = L1TokenEnabledForLiquidityProvision ''0xL1b'' ''0xLPb'' \<and>
   getL1LpTokenTable (ex_hub\<lparr>hub_events := [ex_e2, ex_e3, ex_e1]\<rparr>) = [(''0xL1'', ''0xLP'')] \<and>
   getL1LpTokenTable (ex_hub\<lparr>hub_events := [ex_e2, ex_e3, ex_e1, ex_e5, ex_e6]\<rparr>)
     = [(''0xL1b'', ''0xLPb'')] \<and>
   ''0xL1'' \<notin> set (getL1Tokens (ex_hub\<lparr>hub_events := [ex_e2, ex_e3, ex_e1, ex_e5, ex_e6]\<rparr>))"
proof -
  let ?h = "ex_hub\<lparr>hub_events := [ex_e2, ex_e3, ex_e1, ex_e5, ex_e6]\<rparr>"
  have a: "hub_events ?h = [ex_e2, ex_e3, ex_e1] @ ex_e5 # [ex_e6]" by simp
  have b: "args ex_e5 = L2TokenDisabledForLiquidityProvision ''0xL1''" by (simp add: ex_e5_def)
  have c: "\<forall>e \<in> set [ex_e6]. \<forall>y. args e \<noteq> L1TokenEnabledForLiquidityProvision ''0xL1'' y"
    by (simp add: ex_e6_def)
  have c': "args ex_e6 = L1TokenEnabledForLiquidityProvision ''0xL1b'' ''0xLPb''"
    by (simp add: ex_e6_def)
  have t1: "getL1LpTokenTable (ex_hub\<lparr>hub_events := [ex_e2, ex_e3, ex_e1]\<rparr>)
              = [(''0xL1'', ''0xLP'')]"
    by (simp add: getL1LpTokenTable_def getL1LpTokenTable_step_def ex_e1_def ex_e2_def ex_e3_def)
  have t2: "getL1LpTokenTable ?h = [(''0xL1b'', ''0xLPb'')]"
    by (simp add: getL1LpTokenTable_def getL1LpTokenTable_step_def deleteProp_def
        ex_e1_def ex_e2_def ex_e3_def ex_e5_def ex_e6_def)
  from getL1LpTokenTable_disable_removes [OF a b c]
  have "''0xL1'' \<notin> set (getL1Tokens ?h)" by blast
  with a b c' t1 t2 show ?thesis by blast
qed

subsection \<open>The join\<close>



lemma joinRoutes_as_triples:
  "joinRoutes tbl nsym sds
     = concat (map (\<lambda>(sd, c, t). routesOfToken tbl (nsym (sd_fromChain sd)) sd c t)
                 (enabledTriples sds))"
proof -
  have inner: "\<And>sd ts c. concat (map (routesOfToken tbl (nsym (sd_fromChain sd)) sd c) ts)
      = concat (map (\<lambda>(sd, c, t). routesOfToken tbl (nsym (sd_fromChain sd)) sd c t)
                  (map (\<lambda>t. (sd, c, t)) ts))"
    by (simp add: comp_def)
  have mid: "\<And>sd rs. concat (map (\<lambda>(c, ts).
         concat (map (routesOfToken tbl (nsym (sd_fromChain sd)) sd c) ts)) rs)
      = concat (map (\<lambda>(sd, c, t). routesOfToken tbl (nsym (sd_fromChain sd)) sd c t)
                  (concat (map (\<lambda>(c, ts). map (\<lambda>t. (sd, c, t)) ts) rs)))"
  proof -
    fix sd rs show "concat (map (\<lambda>(c, ts).
         concat (map (routesOfToken tbl (nsym (sd_fromChain sd)) sd c) ts)) rs)
      = concat (map (\<lambda>(sd, c, t). routesOfToken tbl (nsym (sd_fromChain sd)) sd c t)
                  (concat (map (\<lambda>(c, ts). map (\<lambda>t. (sd, c, t)) ts) rs)))"
      by (induction rs) (auto simp: inner)
  qed
  show ?thesis
    unfolding joinRoutes_def enabledTriples_def
    by (induction sds) (auto simp: mid)
qed







lemma routesOfToken_l1TokenAddress:
  "r \<in> set (routesOfToken tbl n sd c t) \<Longrightarrow>
   l1TokenAddress r = map_of tbl t \<and> fromTokenAddress r = t"
  by (auto simp: routesOfToken_def Let_def split: if_splits)

lemma joinRoutes_l1TokenAddress:
  assumes "r \<in> set (joinRoutes tbl nsym sds)"
  shows "l1TokenAddress r = map_of tbl (fromTokenAddress r)"
proof -
  from assms obtain sd c t where "r \<in> set (routesOfToken tbl (nsym (sd_fromChain sd)) sd c t)"
    by (auto simp: joinRoutes_as_triples)
  from routesOfToken_l1TokenAddress [OF this] show ?thesis by simp
qed

lemma in_concat_map: "x \<in> set xs \<Longrightarrow> y \<in> set (f x) \<Longrightarrow> y \<in> set (concat (map f xs))"
  by auto

lemma enabledTriples_member:
  assumes "sd \<in> set sds" and "(c, ts) \<in> set (sd_routes sd)" and "t \<in> set ts"
  shows "(sd, c, t) \<in> set (enabledTriples sds)"
  unfolding enabledTriples_def
proof (rule in_concat_map [OF assms(1)], rule in_concat_map [OF assms(2)])
  show "(sd, c, t) \<in> set (case (c, ts) of (c, ts) \<Rightarrow> map (\<lambda>t. (sd, c, t)) ts)"
    using assms(3) by simp
qed

text \<open>
  Claim C5. Let the token \<open>t\<close> be listed for the destination key \<open>c\<close> in the route table
  of a spoke of the join, and let the hub's spoke-token table have no property \<open>t\<close>. Then
  the join returns the route record of that triple with \<^verbatim>\<open>l1TokenAddress\<close> undefined, and
  every record it returns for the token \<open>t\<close> has \<^verbatim>\<open>l1TokenAddress\<close> undefined. The join is a
  total function: it has no failing outcome.
\<close>

theorem joinRoutes_missing_l1Token:
  assumes "sd \<in> set sds" and "(c, ts) \<in> set (sd_routes sd)" and "t \<in> set ts"
      and "map_of tbl t = None"
  shows "\<lparr>fromChain = Number (sd_fromChain sd), toChain = Number c, fromTokenAddress = t,
           fromSpokeAddress = sd_fromSpokeAddress sd,
           fromTokenSymbol = map_of (sd_symbols sd) t, isNative = False,
           l1TokenAddress = None\<rparr> \<in> set (joinRoutes tbl nsym sds) \<and>
         (\<forall>r \<in> set (joinRoutes tbl nsym sds). fromTokenAddress r = t \<longrightarrow> l1TokenAddress r = None)"
proof
  let ?r = "\<lparr>fromChain = Number (sd_fromChain sd), toChain = Number c, fromTokenAddress = t,
           fromSpokeAddress = sd_fromSpokeAddress sd,
           fromTokenSymbol = map_of (sd_symbols sd) t, isNative = False,
           l1TokenAddress = None\<rparr>"
  have "?r \<in> set (routesOfToken tbl (nsym (sd_fromChain sd)) sd c t)"
    using assms(4) by (simp add: routesOfToken_def Let_def)
  moreover have "(sd, c, t) \<in> set (enabledTriples sds)"
    using assms(1-3) by (rule enabledTriples_member)
  ultimately have "\<exists>p \<in> set (enabledTriples sds).
      ?r \<in> set ((\<lambda>(sd, c, t). routesOfToken tbl (nsym (sd_fromChain sd)) sd c t) p)"
    by (intro bexI [of _ "(sd, c, t)"]) simp_all
  then show "?r \<in> set (joinRoutes tbl nsym sds)"
    by (simp add: joinRoutes_as_triples)
  show "\<forall>r \<in> set (joinRoutes tbl nsym sds). fromTokenAddress r = t \<longrightarrow> l1TokenAddress r = None"
  proof (intro ballI impI)
    fix r assume "r \<in> set (joinRoutes tbl nsym sds)" "fromTokenAddress r = t"
    with joinRoutes_l1TokenAddress [of r tbl nsym sds] assms(4)
    show "l1TokenAddress r = None" by simp
  qed
qed

theorem joinRoutes_missing_l1Token_witness:
  "ex_sd \<in> set [ex_sd] \<and> (137, [''0xWETH'', ''0xTok'']) \<in> set (sd_routes ex_sd) \<and>
   ''0xTok'' \<in> set [''0xWETH'', ''0xTok''] \<and> map_of ex_spokeTokenTable ''0xTok'' = None \<and>
   \<lparr>fromChain = 10, toChain = 137, fromTokenAddress = ''0xTok'',
     fromSpokeAddress = ''0xSpoke10'', fromTokenSymbol = Some ''TOK'', isNative = False,
     l1TokenAddress = None\<rparr> \<in> set (joinRoutes ex_spokeTokenTable (\<lambda>_. ''ETH'') [ex_sd])"
proof -
  have a: "ex_sd \<in> set [ex_sd]" by simp
  have b: "(137, [''0xWETH'', ''0xTok'']) \<in> set (sd_routes ex_sd)" by (simp add: ex_sd_def)
  have c: "''0xTok'' \<in> set [''0xWETH'', ''0xTok'']" by simp
  have d: "map_of ex_spokeTokenTable ''0xTok'' = None" by (simp add: ex_spokeTokenTable_def)
  have f: "Number (sd_fromChain ex_sd) = 10" "sd_fromSpokeAddress ex_sd = ''0xSpoke10''"
    "map_of (sd_symbols ex_sd) ''0xTok'' = Some ''TOK''" "Number 137 = 137"
    by (simp_all add: ex_sd_def Number_def)
  from joinRoutes_missing_l1Token [OF a b c d, of "\<lambda>_. ''ETH''"]
  have "\<lparr>fromChain = Number (sd_fromChain ex_sd), toChain = Number 137,
          fromTokenAddress = ''0xTok'', fromSpokeAddress = sd_fromSpokeAddress ex_sd,
          fromTokenSymbol = map_of (sd_symbols ex_sd) ''0xTok'', isNative = False,
          l1TokenAddress = None\<rparr> \<in> set (joinRoutes ex_spokeTokenTable (\<lambda>_. ''ETH'') [ex_sd])"
    by (rule conjunct1)
  then have m: "\<lparr>fromChain = 10, toChain = 137, fromTokenAddress = ''0xTok'',
     fromSpokeAddress = ''0xSpoke10'', fromTokenSymbol = Some ''TOK'', isNative = False,
     l1TokenAddress = None\<rparr> \<in> set (joinRoutes ex_spokeTokenTable (\<lambda>_. ''ETH'') [ex_sd])"
    by (simp only: f)
  show ?thesis by (intro conjI) (fact a b c d m)+
qed

subsection \<open>Derived views\<close>

text \<open>
  The views on the heap. First what a call may rely on: a heap that keeps another is that
  heap followed by new cells, so a cell, a store and its log read the same in both.
\<close>

lemma keeps_iff: "keeps H H' \<longleftrightarrow> (\<exists>cs. H' = H @ cs)"
proof
  assume "keeps H H'"
  then have "H' = H @ drop (length H) H'"
    unfolding keeps_def by (metis append_take_drop_id)
  then show "\<exists>cs. H' = H @ cs" ..
next
  assume "\<exists>cs. H' = H @ cs"
  then show "keeps H H'" by (auto simp: keeps_def)
qed

lemma keeps_refl: "keeps H H"
  by (simp add: keeps_def)

lemma keeps_trans: "keeps H H1 \<Longrightarrow> keeps H1 H2 \<Longrightarrow> keeps H H2"
  by (auto simp: keeps_iff)

lemma keeps_append: "keeps H (H @ cs)"
  by (simp add: keeps_def)

lemma keeps_alloc: "alloc c H = (r, H') \<Longrightarrow> keeps H H'"
  by (auto simp: alloc_def keeps_append)

lemma length_writeCell: "length (writeCell r c H) = length H"
  by (simp add: writeCell_def)

lemma keeps_writeCell: "keeps H0 H \<Longrightarrow> length H0 \<le> r \<Longrightarrow> keeps H0 (writeCell r c H)"
  by (auto simp: keeps_iff writeCell_def list_update_append)

lemma keeps_length: "keeps H H' \<Longrightarrow> length H \<le> length H'"
  by (simp add: keeps_def)

lemma keeps_cellAt: "keeps H H' \<Longrightarrow> r < length H \<Longrightarrow> cellAt H' r = cellAt H r"
  by (auto simp: keeps_iff cellAt_def nth_append)

lemma keeps_cellAt_Some: "keeps H H' \<Longrightarrow> cellAt H r = Some c \<Longrightarrow> cellAt H' r = Some c"
  by (auto simp: keeps_iff cellAt_def nth_append split: if_splits)

lemma cellAt_writeCell:
  "cellAt (writeCell r c H) x = (if x = r \<and> r < length H then Some c else cellAt H x)"
  by (auto simp: cellAt_def writeCell_def)

lemma cellAt_alloc:
  "alloc c H = (r, H') \<Longrightarrow> cellAt H' x = (if x = length H then Some c else cellAt H x)"
  by (auto simp: alloc_def cellAt_def nth_append)

lemma alloc_ref: "alloc c H = (r, H') \<Longrightarrow> r = length H \<and> length H' = Suc (length H)"
  by (auto simp: alloc_def)

lemma spokeAt_cells:
  assumes "spokeAt H this = Some s"
  obtains f where "cellAt H this = Some (SpokePoolObject f)"
    and "cellAt H (f_spoke_events f) = Some (EventArray (spoke_events s))"
    and "s = \<lparr>spoke_address = f_spoke_address f, spoke_startBlock = f_spoke_startBlock f,
               spoke_maxRange = f_spoke_maxRange f, spoke_events = spoke_events s,
               wrappedNativeToken = f_wrappedNativeToken f\<rparr>"
proof -
  from assms obtain c where c: "cellAt H this = Some c" 
    by (cases "cellAt H this") (auto simp: spokeAt_def)
  with assms obtain f where f: "c = SpokePoolObject f"
    by (cases c) (auto simp: spokeAt_def)
  from assms c f obtain d where d: "cellAt H (f_spoke_events f) = Some d"
    by (cases "cellAt H (f_spoke_events f)") (auto simp: spokeAt_def)
  with assms c f obtain es where es: "d = EventArray es"
    by (cases d) (auto simp: spokeAt_def)
  from assms c f d es have "s = \<lparr>spoke_address = f_spoke_address f,
      spoke_startBlock = f_spoke_startBlock f, spoke_maxRange = f_spoke_maxRange f,
      spoke_events = es, wrappedNativeToken = f_wrappedNativeToken f\<rparr>"
    by (simp add: spokeAt_def)
  with c f d es that show thesis by simp
qed

lemma hubAt_cells:
  assumes "hubAt H this = Some h"
  obtains f where "cellAt H this = Some (HubPoolObject f)"
    and "cellAt H (f_hub_events f) = Some (EventArray (hub_events h))"
    and "h = \<lparr>hub_address = f_hub_address f, hub_startBlock = f_hub_startBlock f,
               hub_maxRange = f_hub_maxRange f, hub_events = hub_events h,
               wethAddress = f_wethAddress f\<rparr>"
proof -
  from assms obtain c where c: "cellAt H this = Some c" 
    by (cases "cellAt H this") (auto simp: hubAt_def)
  with assms obtain f where f: "c = HubPoolObject f"
    by (cases c) (auto simp: hubAt_def)
  from assms c f obtain d where d: "cellAt H (f_hub_events f) = Some d"
    by (cases "cellAt H (f_hub_events f)") (auto simp: hubAt_def)
  with assms c f obtain es where es: "d = EventArray es"
    by (cases d) (auto simp: hubAt_def)
  from assms c f d es have "h = \<lparr>hub_address = f_hub_address f,
      hub_startBlock = f_hub_startBlock f, hub_maxRange = f_hub_maxRange f,
      hub_events = es, wethAddress = f_wethAddress f\<rparr>"
    by (simp add: hubAt_def)
  with c f d es that show thesis by simp
qed

lemma spokeAt_keeps:
  assumes "keeps H H'" and "spokeAt H this = Some s"
  shows "spokeAt H' this = Some s"
proof -
  from assms(2) obtain f where a: "cellAt H this = Some (SpokePoolObject f)"
    and b: "cellAt H (f_spoke_events f) = Some (EventArray (spoke_events s))"
    and s: "s = \<lparr>spoke_address = f_spoke_address f, spoke_startBlock = f_spoke_startBlock f,
               spoke_maxRange = f_spoke_maxRange f, spoke_events = spoke_events s,
               wrappedNativeToken = f_wrappedNativeToken f\<rparr>"
    by (rule spokeAt_cells)
  from keeps_cellAt_Some [OF assms(1) a] keeps_cellAt_Some [OF assms(1) b] s
  show ?thesis by (simp add: spokeAt_def)
qed

lemma hubAt_keeps:
  assumes "keeps H H'" and "hubAt H this = Some h"
  shows "hubAt H' this = Some h"
proof -
  from assms(2) obtain f where a: "cellAt H this = Some (HubPoolObject f)"
    and b: "cellAt H (f_hub_events f) = Some (EventArray (hub_events h))"
    and h: "h = \<lparr>hub_address = f_hub_address f, hub_startBlock = f_hub_startBlock f,
               hub_maxRange = f_hub_maxRange f, hub_events = hub_events h,
               wethAddress = f_wethAddress f\<rparr>"
    by (rule hubAt_cells)
  from keeps_cellAt_Some [OF assms(1) a] keeps_cellAt_Some [OF assms(1) b] h
  show ?thesis by (simp add: hubAt_def)
qed

lemma spoke_this_events:
  assumes "spokeAt H this = Some s"
  shows "spoke_this_events H this = spoke_events s"
proof -
  from assms obtain f where "cellAt H this = Some (SpokePoolObject f)"
    and "cellAt H (f_spoke_events f) = Some (EventArray (spoke_events s))"
    by (rule spokeAt_cells)
  then show ?thesis by (simp add: spoke_this_events_def eventsAt_def)
qed

lemma hub_this_events:
  assumes "hubAt H this = Some h"
  shows "hub_this_events H this = hub_events h"
proof -
  from assms obtain f where "cellAt H this = Some (HubPoolObject f)"
    and "cellAt H (f_hub_events f) = Some (EventArray (hub_events h))"
    by (rule hubAt_cells)
  then show ?thesis by (simp add: hub_this_events_def eventsAt_def)
qed

lemma mapValues_strProps: "mapValues strOf (strProps tbl) = tbl"
  by (induction tbl) (auto simp: mapValues_def strProps_def strOf_def)

lemma setProp_strProps: "setProp k (Str v) (strProps tbl) = strProps (setProp k v tbl)"
  by (induction tbl) (auto simp: strProps_def)

lemma deleteProp_strProps: "deleteProp k (strProps tbl) = strProps (deleteProp k tbl)"
  by (induction tbl) (auto simp: strProps_def deleteProp_def)

lemma map_of_strProps: "map_of (strProps tbl) k = map_option Str (map_of tbl k)"
  by (induction tbl) (auto simp: strProps_def)

lemma addChainProp_strProps:
  "addChainProp k (Str v) (strProps tbl) = strProps (addChainProp k v tbl)"
  by (induction tbl) (auto simp: strProps_def)

lemma modifyProp_strProps:
  "modifyProp k (\<lambda>_. Str v) (strProps tbl) = strProps (modifyProp k (\<lambda>_. v) tbl)"
  by (induction tbl) (auto simp: strProps_def modifyProp_def)

lemma setChainProp_strProps:
  "setChainProp k (Str v) (strProps tbl) = strProps (setChainProp k v tbl)"
  by (simp add: setChainProp_def map_of_strProps addChainProp_strProps modifyProp_strProps)

lemma addrProps_cell: "cellAt H r = Some (AddrObject ps) \<Longrightarrow> addrProps H r = ps"
  by (simp add: addrProps_def)

lemma chainProps_cell: "cellAt H r = Some (ChainObject ps) \<Longrightarrow> chainProps H r = ps"
  by (simp add: chainProps_def)

lemma cellAt_Some_less: "cellAt H r = Some c \<Longrightarrow> r < length H"
  by (simp add: cellAt_def split: if_splits)

lemma heap_getL1LpTokenTable_step:
  assumes "keeps H0 H" and "length H0 \<le> r" and "cellAt H r = Some (AddrObject (strProps tbl))"
  shows "keeps H0 (heap_getL1LpTokenTable_step r H e) \<and>
         cellAt (heap_getL1LpTokenTable_step r H e) r
           = Some (AddrObject (strProps (getL1LpTokenTable_step tbl e)))"
proof -
  note r = cellAt_Some_less [OF assms(3)]
  show ?thesis
    using assms r
    by (auto simp: heap_getL1LpTokenTable_step_def getL1LpTokenTable_step_def Let_def
        keeps_writeCell cellAt_writeCell addrProps_cell setProp_strProps deleteProp_strProps
        length_writeCell split: event_args.splits)
qed

lemma heap_getL1LpTokenTable_fold:
  "keeps H0 H \<Longrightarrow> length H0 \<le> r \<Longrightarrow> cellAt H r = Some (AddrObject (strProps tbl)) \<Longrightarrow>
   keeps H0 (foldl (heap_getL1LpTokenTable_step r) H es) \<and>
   cellAt (foldl (heap_getL1LpTokenTable_step r) H es) r
     = Some (AddrObject (strProps (foldl getL1LpTokenTable_step tbl es)))"
proof (induction es arbitrary: H tbl)
  case Nil
  then show ?case by simp
next
  case (Cons e es)
  from heap_getL1LpTokenTable_step [OF Cons.prems, of e] Cons.prems(2)
  show ?case by (simp add: Cons.IH)
qed

lemma heap_getL1LpTokenTable_correct:
  assumes "hubAt H this = Some h"
  shows "case heap_getL1LpTokenTable this H of
           (v, H') \<Rightarrow> keeps H H' \<and> length H \<le> v \<and>
                      cellAt H' v = Some (AddrObject (strProps (getL1LpTokenTable h)))"
proof -
  let ?H1 = "H @ [AddrObject []]"
  have k: "keeps H ?H1" by (rule keeps_append)
  have c: "cellAt ?H1 (length H) = Some (AddrObject (strProps []))"
    by (simp add: cellAt_def strProps_def)
  have ev: "hub_this_events ?H1 this = hub_events h"
    using hubAt_keeps [OF k assms] by (rule hub_this_events)
  from heap_getL1LpTokenTable_fold [OF k le_refl c, of "hub_events h"] ev
  show ?thesis
    by (simp add: heap_getL1LpTokenTable_def alloc_def getL1LpTokenTable_def)
qed

lemma heap_getSpokeTokenTable_step:
  assumes "keeps H0 H" and "length H0 \<le> r" and "cellAt H r = Some (AddrObject (strProps tbl))"
  shows "keeps H0 (heap_getSpokeTokenTable_step r H e) \<and>
         cellAt (heap_getSpokeTokenTable_step r H e) r
           = Some (AddrObject (strProps (getSpokeTokenTable_step tbl e)))"
proof -
  note r = cellAt_Some_less [OF assms(3)]
  show ?thesis
    using assms r
    by (auto simp: heap_getSpokeTokenTable_step_def getSpokeTokenTable_step_def
        keeps_writeCell cellAt_writeCell addrProps_cell setProp_strProps
        split: event_args.splits)
qed

lemma heap_getSpokeTokenTable_fold:
  "keeps H0 H \<Longrightarrow> length H0 \<le> r \<Longrightarrow> cellAt H r = Some (AddrObject (strProps tbl)) \<Longrightarrow>
   keeps H0 (foldl (heap_getSpokeTokenTable_step r) H es) \<and>
   cellAt (foldl (heap_getSpokeTokenTable_step r) H es) r
     = Some (AddrObject (strProps (foldl getSpokeTokenTable_step tbl es)))"
proof (induction es arbitrary: H tbl)
  case Nil
  then show ?case by simp
next
  case (Cons e es)
  from heap_getSpokeTokenTable_step [OF Cons.prems, of e] Cons.prems(2)
  show ?case by (simp add: Cons.IH)
qed

lemma addrStringsAt_cell:
  "cellAt H v = Some (AddrObject (strProps tbl)) \<Longrightarrow> keeps H H' \<Longrightarrow> addrStringsAt H' v = tbl"
  by (simp add: addrStringsAt_def addrProps_cell mapValues_strProps keeps_cellAt_Some)

lemma chainStringsAt_cell:
  "cellAt H v = Some (ChainObject (strProps tbl)) \<Longrightarrow> keeps H H' \<Longrightarrow> chainStringsAt H' v = tbl"
  by (simp add: chainStringsAt_def chainProps_cell mapValues_strProps keeps_cellAt_Some)

lemma stringArrayAt_cell:
  "cellAt H v = Some (ArrayObject vs) \<Longrightarrow> keeps H H' \<Longrightarrow> stringArrayAt H' v = map strOf vs"
  by (simp add: stringArrayAt_def stringsAt_def arrayElems_def keeps_cellAt_Some)

lemma numberArrayAt_cell:
  "cellAt H v = Some (ArrayObject vs) \<Longrightarrow> keeps H H' \<Longrightarrow> numberArrayAt H' v = map numOf vs"
  by (simp add: numberArrayAt_def numbersAt_def arrayElems_def keeps_cellAt_Some)

lemma heap_getL1LpTokenTable_returns:
  assumes "hubAt H this = Some h"
  shows "case heap_getL1LpTokenTable this H of
           (v, H') \<Rightarrow> keeps H H' \<and>
             (\<forall>H''. keeps H' H'' \<longrightarrow> addrStringsAt H'' v = getL1LpTokenTable h)"
  using heap_getL1LpTokenTable_correct [OF assms]
  by (auto simp: addrStringsAt_cell)

lemma heap_getSpokeTokenTable_returns:
  assumes "hubAt H this = Some h"
  shows "case heap_getSpokeTokenTable this H of
           (v, H') \<Rightarrow> keeps H H' \<and>
             (\<forall>H''. keeps H' H'' \<longrightarrow> addrStringsAt H'' v = getSpokeTokenTable h)"
proof -
  let ?H1 = "H @ [AddrObject []]"
  have k: "keeps H ?H1" by (rule keeps_append)
  have c: "cellAt ?H1 (length H) = Some (AddrObject (strProps []))"
    by (simp add: cellAt_def strProps_def)
  have ev: "hub_this_events ?H1 this = hub_events h"
    using hubAt_keeps [OF k assms] by (rule hub_this_events)
  from heap_getSpokeTokenTable_fold [OF k le_refl c, of "hub_events h"] ev
  show ?thesis
    by (auto simp: heap_getSpokeTokenTable_def alloc_def getSpokeTokenTable_def
        addrStringsAt_cell)
qed

lemma heap_getSpokePoolAddresses_from:
  "keeps H0 H \<Longrightarrow> length H0 \<le> r \<Longrightarrow> cellAt H r = Some (ChainObject (strProps tbl)) \<Longrightarrow>
   (case heap_getSpokePoolAddresses_from r H es of
      (out, H') \<Rightarrow>
        keeps H0 H' \<and>
        (\<forall>H''. keeps H' H'' \<longrightarrow>
           resultAt chainStringsAt H'' out = getSpokePoolAddresses_from tbl es))"
proof (induction es arbitrary: H tbl)
  case Nil
  then show ?case
    by (simp add: resultAt_def chainStringsAt_cell)
next
  case (Cons e es)
  note r = cellAt_Some_less [OF Cons.prems(3)]
  show ?case
  proof (cases "isCrossChainContractsSet e")
    case False
    with Cons.IH [OF Cons.prems] show ?thesis by simp
  next
    case True
    then obtain l2 sp where a: "args e = CrossChainContractsSet l2 sp"
      by (cases "args e") auto
    show ?thesis
    proof (cases "toNumber l2")
      case (Inl err)
      with a Cons.prems(1) show ?thesis by (simp add: resultAt_def)
    next
      case (Inr k)
      let ?H = "writeCell r (ChainObject (setChainProp k (Str sp) (chainProps H r))) H"
      have k1: "keeps H0 ?H" using Cons.prems(1,2) by (rule keeps_writeCell)
      have c1: "cellAt ?H r = Some (ChainObject (strProps (setChainProp k sp tbl)))"
        using r Cons.prems(3)
        by (simp add: cellAt_writeCell chainProps_cell setChainProp_strProps)
      from Cons.IH [OF k1 Cons.prems(2) c1] a Inr
      show ?thesis by simp
    qed
  qed
qed

lemma heap_getSpokePoolAddresses_returns:
  assumes "hubAt H this = Some h"
  shows "case heap_getSpokePoolAddresses this H of
           (out, H') \<Rightarrow>
             keeps H H' \<and>
             (\<forall>H''. keeps H' H'' \<longrightarrow>
                resultAt chainStringsAt H'' out = getSpokePoolAddresses h)"
proof -
  let ?H1 = "H @ [ChainObject []]"
  have k: "keeps H ?H1" by (rule keeps_append)
  have c: "cellAt ?H1 (length H) = Some (ChainObject (strProps []))"
    by (simp add: cellAt_def strProps_def)
  have ev: "hub_this_events ?H1 this = hub_events h"
    using hubAt_keeps [OF k assms] by (rule hub_this_events)
  from heap_getSpokePoolAddresses_from [OF k le_refl c, of "hub_events h"] ev
  show ?thesis
    by (simp add: heap_getSpokePoolAddresses_def alloc_def getSpokePoolAddresses_def)
qed

lemma alloc_cell: "alloc c H = (a, H') \<Longrightarrow> cellAt H' a = Some c"
  by (auto simp: alloc_def cellAt_def)

lemma heap_getL1Tokens_returns:
  assumes "hubAt H this = Some h"
  shows "case heap_getL1Tokens this H of
           (v, H') \<Rightarrow> keeps H H' \<and>
             (\<forall>H''. keeps H' H'' \<longrightarrow> stringArrayAt H'' v = getL1Tokens h)"
proof -
  obtain t H1 where t: "heap_getL1LpTokenTable this H = (t, H1)"
    by (cases "heap_getL1LpTokenTable this H")
  with heap_getL1LpTokenTable_correct [OF assms]
  have k: "keeps H H1" and c: "cellAt H1 t = Some (AddrObject (strProps (getL1LpTokenTable h)))"
    by auto
  obtain a H2 where a: "alloc (ArrayObject (map Str (map fst (addrProps H1 t)))) H1 = (a, H2)"
    by (cases "alloc (ArrayObject (map Str (map fst (addrProps H1 t)))) H1")
  have out: "heap_getL1Tokens this H = (a, H2)"
    using a by (simp add: heap_getL1Tokens_def t)
  have "map strOf (map Str (map fst (addrProps H1 t))) = getL1Tokens h"
    using c by (simp add: getL1Tokens_def addrProps_cell strProps_def comp_def strOf_def)
  with keeps_trans [OF k keeps_alloc [OF a]] stringArrayAt_cell [OF alloc_cell [OF a]]
  show ?thesis unfolding out by simp
qed

lemma heap_getLpTokens_returns:
  assumes "hubAt H this = Some h"
  shows "case heap_getLpTokens this H of
           (v, H') \<Rightarrow> keeps H H' \<and>
             (\<forall>H''. keeps H' H'' \<longrightarrow> stringArrayAt H'' v = getLpTokens h)"
proof -
  obtain t H1 where t: "heap_getL1LpTokenTable this H = (t, H1)"
    by (cases "heap_getL1LpTokenTable this H")
  with heap_getL1LpTokenTable_correct [OF assms]
  have k: "keeps H H1" and c: "cellAt H1 t = Some (AddrObject (strProps (getL1LpTokenTable h)))"
    by auto
  obtain a H2 where a: "alloc (ArrayObject (map snd (addrProps H1 t))) H1 = (a, H2)"
    by (cases "alloc (ArrayObject (map snd (addrProps H1 t))) H1")
  have out: "heap_getLpTokens this H = (a, H2)"
    using a by (simp add: heap_getLpTokens_def t)
  have "map strOf (map snd (addrProps H1 t)) = getLpTokens h"
    using c by (simp add: getLpTokens_def addrProps_cell strProps_def comp_def strOf_def)
  with keeps_trans [OF k keeps_alloc [OF a]] stringArrayAt_cell [OF alloc_cell [OF a]]
  show ?thesis unfolding out by simp
qed

text \<open>
  \<^verbatim>\<open>routesEnabled\<close>: the loop keeps the heap it found and the invariant \<open>repSets\<close>; without
  the references, the list of the invariant is the table of the function \<open>routesEnabled\<close>.
\<close>

lemma map_of_mapValues: "map_of (mapValues f ps) k = map_option f (map_of ps k)"
  by (induction ps) (auto simp: mapValues_def)

lemma keys_mapValues: "map fst (mapValues f ps) = map fst ps"
  by (simp add: mapValues_def comp_def)

lemma mapValues_addChainProp:
  "mapValues f (addChainProp k v ps) = addChainProp k (f v) (mapValues f ps)"
  by (induction ps) (auto simp: mapValues_def)

lemma mapValues_modifyProp:
  "(\<And>v. f (g v) = g' (f v)) \<Longrightarrow>
   mapValues f (modifyProp k g ps) = modifyProp k g' (mapValues f ps)"
  by (induction ps) (auto simp: mapValues_def modifyProp_def)

lemma mapValues_modifyProp_same:
  "(\<And>v. f (g v) = f v) \<Longrightarrow> mapValues f (modifyProp k g ps) = mapValues f ps"
  by (induction ps) (auto simp: mapValues_def modifyProp_def)

lemma mapValues_setChainProp:
  "mapValues f (setChainProp k v ps) = setChainProp k (f v) (mapValues f ps)"
  by (simp add: setChainProp_def map_of_mapValues mapValues_addChainProp
      mapValues_modifyProp [where g' = "\<lambda>_. f v"])

lemma mapValues_setProp: "mapValues f (setProp k v ps) = setProp k (f v) (mapValues f ps)"
  by (induction ps) (auto simp: mapValues_def)

lemma mapValues_mapValues: "mapValues f (mapValues g ps) = mapValues (\<lambda>x. f (g x)) ps"
  by (simp add: mapValues_def comp_def)

lemma mapValues_cong:
  "(\<And>x. x \<in> set ps \<Longrightarrow> f (snd x) = g (snd x)) \<Longrightarrow> mapValues f ps = mapValues g ps"
  by (simp add: mapValues_def)

lemma set_modifyProp:
  "set (modifyProp k g ps) = (\<lambda>p. if fst p = k then (fst p, g (snd p)) else p) ` set ps"
  by (simp add: modifyProp_def)

lemma map_modifyProp_same:
  "(\<And>v. h (g v) = h v) \<Longrightarrow> map (\<lambda>x. h (snd x)) (modifyProp k g ps) = map (\<lambda>x. h (snd x)) ps"
  by (induction ps) (auto simp: modifyProp_def)

lemma distinct_map_addChainProp:
  "distinct (map h (addChainProp k v ps)) \<longleftrightarrow> h (k, v) \<notin> h ` set ps \<and> distinct (map h ps)"
proof (induction ps)
  case Nil
  then show ?case by simp
next
  case (Cons p ps)
  obtain k' v' where p: "p = (k', v')" by (cases p)
  show ?case
  proof (cases "isArrayIndex k \<and> (\<not> isArrayIndex k' \<or> k < k')")
    case True
    then show ?thesis by (auto simp: p)
  next
    case False
    have "addChainProp k v (p # ps) = p # addChainProp k v ps"
      unfolding p using False by (subst addChainProp.simps) (simp only: if_False)
    then show ?thesis using Cons.IH by (auto simp: set_addChainProp)
  qed
qed

lemma setChainProp_absent: "map_of ps k = None \<Longrightarrow> setChainProp k v ps = addChainProp k v ps"
  by (simp add: setChainProp_def)

lemma map_of_distinct_mem:
  "distinct (map fst ps) \<Longrightarrow> map_of ps k = Some v \<Longrightarrow> x \<in> set ps \<Longrightarrow> fst x = k \<Longrightarrow> x = (k, v)"
  by (metis map_of_is_SomeI option.inject prod.collapse)

lemma repSets_ensure:
  assumes k: "keeps H0 H" and r: "length H0 \<le> r" and rep: "repSets (length H0) H r G"
    and absent: "map_of G c = None"
  defines "H1 \<equiv> writeCell r (ChainObject (setChainProp c (Ref (length H))
                     (chainProps (H @ [SetObject []]) r))) (H @ [SetObject []])"
  shows "keeps H0 H1 \<and> repSets (length H0) H1 r (setChainProp c (length H, []) G)"
proof -
  let ?G = "setChainProp c (length H, []) G"
  from rep have top: "cellAt H r = Some (ChainObject (mapValues (\<lambda>x. Ref (fst x)) G))"
    and dk: "distinct (map fst G)" and dr: "distinct (map (\<lambda>x. fst (snd x)) G)"
    and cells: "\<And>x. x \<in> set G \<Longrightarrow> length H0 \<le> fst (snd x) \<and>
        cellAt H (fst (snd x)) = Some (SetObject (snd (snd x)))"
    by (auto simp: repSets_def)
  have rl: "r < length H" using top by (rule cellAt_Some_less)
  have kH: "keeps H (H @ [SetObject []])" by (rule keeps_append)
  have cp: "chainProps (H @ [SetObject []]) r = mapValues (\<lambda>x. Ref (fst x)) G"
    using keeps_cellAt_Some [OF kH top] by (rule chainProps_cell)
  have H1: "H1 = writeCell r (ChainObject (mapValues (\<lambda>x. Ref (fst x)) ?G))
                   (H @ [SetObject []])"
    by (simp add: H1_def cp mapValues_setChainProp)
  have k1: "keeps H0 H1"
    unfolding H1 using keeps_trans [OF k kH] r by (rule keeps_writeCell)
  have top1: "cellAt H1 r = Some (ChainObject (mapValues (\<lambda>x. Ref (fst x)) ?G))"
    unfolding H1 using rl by (simp add: cellAt_writeCell)
  have dk1: "distinct (map fst ?G)" using dk by (rule distinct_setChainProp)
  have fresh: "length H \<notin> (\<lambda>x. fst (snd x)) ` set G"
  proof
    assume "length H \<in> (\<lambda>x. fst (snd x)) ` set G"
    then obtain x where "x \<in> set G" "fst (snd x) = length H" by auto
    with cells [of x] cellAt_Some_less [of H "length H"] show False by auto
  qed
  have G: "?G = addChainProp c (length H, []) G" using absent by (rule setChainProp_absent)
  have dr1: "distinct (map (\<lambda>x. fst (snd x)) ?G)"
    unfolding G using dr fresh by (simp add: distinct_map_addChainProp)
  have cells1: "\<forall>x \<in> set ?G. length H0 \<le> fst (snd x) \<and>
        cellAt H1 (fst (snd x)) = Some (SetObject (snd (snd x)))"
  proof
    fix x assume "x \<in> set ?G"
    then consider "x = (c, length H, [])" | "x \<in> set G"
      unfolding G by (auto simp: set_addChainProp)
    then show "length H0 \<le> fst (snd x) \<and>
        cellAt H1 (fst (snd x)) = Some (SetObject (snd (snd x)))"
    proof cases
      case 1
      have "cellAt H1 (length H) = cellAt (H @ [SetObject []]) (length H)"
        unfolding H1 using rl by (simp add: cellAt_writeCell)
      also have "\<dots> = Some (SetObject [])" by (simp add: cellAt_def)
      finally show ?thesis using 1 keeps_length [OF k] by simp
    next
      case 2
      from cells [OF 2] have a: "length H0 \<le> fst (snd x)"
        and b: "cellAt H (fst (snd x)) = Some (SetObject (snd (snd x)))" by auto
      from b top have "fst (snd x) \<noteq> r" by auto
      with a keeps_cellAt_Some [OF kH b] show ?thesis
        unfolding H1 by (simp add: cellAt_writeCell)
    qed
  qed
  from k1 top1 dk1 dr1 cells1 show ?thesis by (simp add: repSets_def)
qed

lemma repSets_update:
  assumes k: "keeps H0 H" and rep: "repSets (length H0) H r G"
    and present: "map_of G c = Some (p, ts)"
  shows "keeps H0 (writeCell p (SetObject (f ts)) H) \<and>
         repSets (length H0) (writeCell p (SetObject (f ts)) H) r
           (modifyProp c (\<lambda>x. (fst x, f (snd x))) G)"
proof -
  let ?H = "writeCell p (SetObject (f ts)) H"
  let ?G = "modifyProp c (\<lambda>x. (fst x, f (snd x))) G"
  from rep have top: "cellAt H r = Some (ChainObject (mapValues (\<lambda>x. Ref (fst x)) G))"
    and dk: "distinct (map fst G)" and dr: "distinct (map (\<lambda>x. fst (snd x)) G)"
    and cells: "\<And>x. x \<in> set G \<Longrightarrow> length H0 \<le> fst (snd x) \<and>
        cellAt H (fst (snd x)) = Some (SetObject (snd (snd x)))"
    by (auto simp: repSets_def)
  from present have mem: "(c, p, ts) \<in> set G" by (rule map_of_SomeD)
  from cells [OF mem] have lo: "length H0 \<le> p" and cp: "cellAt H p = Some (SetObject ts)"
    by auto
  have pl: "p < length H" using cp by (rule cellAt_Some_less)
  from cp top have pr: "p \<noteq> r" by auto
  have k1: "keeps H0 ?H" using k lo by (rule keeps_writeCell)
  have top1: "cellAt ?H r = Some (ChainObject (mapValues (\<lambda>x. Ref (fst x)) ?G))"
    using top pr by (simp add: cellAt_writeCell mapValues_modifyProp_same)
  have dk1: "distinct (map fst ?G)" using dk by (simp add: keys_modifyProp)
  have dr1: "distinct (map (\<lambda>x. fst (snd x)) ?G)"
    using dr by (simp add: map_modifyProp_same [where h = fst])
  have inj: "inj_on (\<lambda>x. fst (snd x)) (set G)" using dr by (simp add: distinct_map)
  have cells1: "\<forall>x \<in> set ?G. length H0 \<le> fst (snd x) \<and>
        cellAt ?H (fst (snd x)) = Some (SetObject (snd (snd x)))"
  proof
    fix x assume "x \<in> set ?G"
    then have "x \<in> (\<lambda>p. if fst p = c then (fst p, fst (snd p), f (snd (snd p))) else p) ` set G"
      by (simp add: set_modifyProp)
    then obtain y where y: "y \<in> set G"
      and x: "x = (if fst y = c then (fst y, fst (snd y), f (snd (snd y))) else y)"
      by (rule imageE)
    show "length H0 \<le> fst (snd x) \<and>
        cellAt ?H (fst (snd x)) = Some (SetObject (snd (snd x)))"
    proof (cases "fst y = c")
      case True
      from map_of_distinct_mem [OF dk present y True] have "y = (c, p, ts)" .
      with x lo pl show ?thesis by (simp add: cellAt_writeCell)
    next
      case False
      have "fst (snd y) \<noteq> p"
      proof
        assume "fst (snd y) = p"
        then have "(\<lambda>x. fst (snd x)) y = (\<lambda>x. fst (snd x)) (c, p, ts)" by simp
        from inj_onD [OF inj this y mem] False show False by simp
      qed
      with cells [OF y] x False show ?thesis by (simp add: cellAt_writeCell)
    qed
  qed
  from k1 top1 dk1 dr1 cells1 show ?thesis by (simp add: repSets_def)
qed

lemma repSets_lookup:
  assumes "repSets lo H r G"
  shows "map_of (chainProps H r) c = map_option (\<lambda>x. Ref (fst x)) (map_of G c)"
    and "map_of G c = Some (p, ts) \<Longrightarrow> setMembers H p = ts"
proof -
  from assms have top: "cellAt H r = Some (ChainObject (mapValues (\<lambda>x. Ref (fst x)) G))"
    by (simp add: repSets_def)
  then show "map_of (chainProps H r) c = map_option (\<lambda>x. Ref (fst x)) (map_of G c)"
    by (simp add: chainProps_cell map_of_mapValues)
  assume "map_of G c = Some (p, ts)"
  then have "(c, p, ts) \<in> set G" by (rule map_of_SomeD)
  with assms have "cellAt H p = Some (SetObject ts)" by (auto simp: repSets_def)
  then show "setMembers H p = ts" by (simp add: setMembers_def)
qed

lemma heap_routesEnabled_step:
  assumes k: "keeps H0 H" and r: "length H0 \<le> r" and rep: "repSets (length H0) H r G"
  shows "\<exists>G'. keeps H0 (heap_routesEnabled_step r H e) \<and>
           repSets (length H0) (heap_routesEnabled_step r H e) r G' \<and>
           mapValues snd G' = routesEnabled_step (mapValues snd G) e"
proof (cases "isEnabledDepositRoute e")
  case False
  with k rep show ?thesis
    by (auto simp: heap_routesEnabled_step_def routesEnabled_step_def)
next
  case True
  then obtain t c b where a: "args e = EnabledDepositRoute t c b"
    by (cases "args e") auto
  define f where "f = (if b then setAdd t else setDelete t)"
  define H1 where "H1 = (if map_of (chainProps H r) c = None
                          then (case alloc (SetObject []) H of
                                  (p, H') \<Rightarrow>
                                    writeCell r
                                      (ChainObject (setChainProp c (Ref p)
                                                      (chainProps H' r))) H')
                          else H)"
  define G1 where "G1 = (if map_of G c = None then setChainProp c (length H, []) G else G)"
  have none_iff: "map_of (chainProps H r) c = None \<longleftrightarrow> map_of G c = None"
    by (simp add: repSets_lookup(1) [OF rep])
  have s1: "keeps H0 H1 \<and> repSets (length H0) H1 r G1"
  proof (cases "map_of G c = None")
    case True
    from repSets_ensure [OF k r rep True] True none_iff show ?thesis
      by (simp add: H1_def G1_def alloc_def)
  next
    case False
    have "H1 = H" by (simp add: H1_def none_iff False)
    moreover have "G1 = G" by (simp add: G1_def False)
    ultimately show ?thesis using k rep by simp
  qed
  then have k1: "keeps H0 H1" and rep1: "repSets (length H0) H1 r G1" by auto
  have "map_of G1 c \<noteq> None"
    by (simp add: G1_def map_of_setChainProp)
  then obtain p ts where pts: "map_of G1 c = Some (p, ts)" by auto
  have lk: "map_of (chainProps H1 r) c = Some (Ref p)"
    by (simp add: repSets_lookup(1) [OF rep1] pts)
  have sm: "setMembers H1 p = ts" using rep1 pts by (rule repSets_lookup(2))
  have step: "heap_routesEnabled_step r H e = writeCell p (SetObject (f ts)) H1"
    using True a lk sm
    by (simp add: heap_routesEnabled_step_def Let_def H1_def [symmetric] f_def)
  from repSets_update [OF k1 rep1 pts, of f]
  have k2: "keeps H0 (heap_routesEnabled_step r H e)"
    and rep2: "repSets (length H0) (heap_routesEnabled_step r H e) r
                 (modifyProp c (\<lambda>x. (fst x, f (snd x))) G1)"
    by (simp_all add: step)
  have e1: "mapValues snd G1
     = (if map_of (mapValues snd G) c = None then setChainProp c [] (mapValues snd G)
        else mapValues snd G)"
    by (simp add: G1_def map_of_mapValues mapValues_setChainProp)
  have "mapValues snd (modifyProp c (\<lambda>x. (fst x, f (snd x))) G1)
     = modifyProp c f (mapValues snd G1)"
    by (rule mapValues_modifyProp) simp
  also have "\<dots> = routesEnabled_step (mapValues snd G) e"
    using True a by (simp add: routesEnabled_step_def Let_def e1 f_def)
  finally show ?thesis using k2 rep2 by blast
qed

lemma heap_routesEnabled_fold:
  "keeps H0 H \<Longrightarrow> length H0 \<le> r \<Longrightarrow> repSets (length H0) H r G \<Longrightarrow>
   \<exists>G'. keeps H0 (foldl (heap_routesEnabled_step r) H es) \<and>
     repSets (length H0) (foldl (heap_routesEnabled_step r) H es) r G' \<and>
     mapValues snd G' = foldl routesEnabled_step (mapValues snd G) es"
proof (induction es arbitrary: H G)
  case Nil
  then show ?case by auto
next
  case (Cons e es)
  from heap_routesEnabled_step [OF Cons.prems, of e] obtain G1 where
    "keeps H0 (heap_routesEnabled_step r H e)"
    "repSets (length H0) (heap_routesEnabled_step r H e) r G1"
    "mapValues snd G1 = routesEnabled_step (mapValues snd G) e" by blast
  with Cons.IH [OF this(1) Cons.prems(2) this(2)] show ?case by simp
qed

lemma heap_listSets:
  "\<forall>x \<in> set G. cellAt H (fst (snd x)) = Some (SetObject (snd (snd x))) \<Longrightarrow>
   (case heap_listSets (mapValues (\<lambda>x. Ref (fst x)) G) H of
      (qs, H') \<Rightarrow>
        keeps H H' \<and>
        (\<exists>A. qs = mapValues (\<lambda>x. Ref (fst x)) A \<and> mapValues snd A = mapValues snd G \<and>
           (\<forall>x \<in> set A. cellAt H' (fst (snd x))
                            = Some (ArrayObject (map Str (snd (snd x)))))))"
proof (induction G arbitrary: H)
  case Nil
  show ?case by (simp add: mapValues_def keeps_refl)
next
  case (Cons g G)
  obtain c p ts where g: "g = (c, p, ts)" by (cases g)
  let ?H1 = "H @ [ArrayObject (map Str ts)]"
  have k1: "keeps H ?H1" by (rule keeps_append)
  from Cons.prems g have sp: "setMembers H p = ts" by (simp add: setMembers_def)
  have "\<forall>x \<in> set G. cellAt ?H1 (fst (snd x)) = Some (SetObject (snd (snd x)))"
    using Cons.prems by (auto intro: keeps_cellAt_Some [OF k1])
  from Cons.IH [OF this] obtain qs H2 A where
    r: "heap_listSets (mapValues (\<lambda>x. Ref (fst x)) G) ?H1 = (qs, H2)"
    and k2: "keeps ?H1 H2" and qs: "qs = mapValues (\<lambda>x. Ref (fst x)) A"
    and er: "mapValues snd A = mapValues snd G"
    and cells: "\<forall>x \<in> set A. cellAt H2 (fst (snd x)) = Some (ArrayObject (map Str (snd (snd x))))"
    by (cases "heap_listSets (mapValues (\<lambda>x. Ref (fst x)) G) ?H1") auto
  let ?A = "(c, length H, ts) # A"
  have "cellAt ?H1 (length H) = Some (ArrayObject (map Str ts))" by (simp add: cellAt_def)
  from keeps_cellAt_Some [OF k2 this] cells
  have cells': "\<forall>x \<in> set ?A. cellAt H2 (fst (snd x)) = Some (ArrayObject (map Str (snd (snd x))))"
    by simp
  have out: "heap_listSets (mapValues (\<lambda>x. Ref (fst x)) (g # G)) H
               = (mapValues (\<lambda>x. Ref (fst x)) ?A, H2)"
    using r sp by (simp add: g mapValues_def alloc_def qs)
  have "mapValues snd ?A = mapValues snd (g # G)" using er by (simp add: g mapValues_def)
  with keeps_trans [OF k1 k2] cells' show ?case
    unfolding out by (intro case_prodI conjI exI [of _ ?A]) simp_all
qed

lemma strOf_Str: "map strOf (map Str ts) = ts"
  by (induction ts) (auto simp: strOf_def)

lemma strOf_Str_comp: "map (strOf \<circ> Str) ts = ts"
  by (induction ts) (auto simp: strOf_def)

lemma map_comp_fst_mapValues: "map (h \<circ> fst) (mapValues g A) = map (h \<circ> fst) A"
  by (simp add: mapValues_def)

lemma repArrays_routeTableAt: "repArrays H v A \<Longrightarrow> routeTableAt H v = mapValues snd A"
proof -
  assume a: "repArrays H v A"
  then have "routeTableAt H v = mapValues (\<lambda>x. stringsAt H (Ref (fst x))) A"
    by (simp add: repArrays_def routeTableAt_def chainProps_cell mapValues_mapValues)
  also have "\<dots> = mapValues snd A"
  proof (rule mapValues_cong)
    fix x assume "x \<in> set A"
    with a have "cellAt H (fst (snd x)) = Some (ArrayObject (map Str (snd (snd x))))"
      by (simp add: repArrays_def)
    then show "stringsAt H (Ref (fst (snd x))) = snd (snd x)"
      by (simp add: stringsAt_def arrayElems_def strOf_Str_comp)
  qed
  finally show ?thesis .
qed

lemma repArrays_keeps: "keeps H H' \<Longrightarrow> repArrays H v A \<Longrightarrow> repArrays H' v A"
  by (auto simp: repArrays_def dest: keeps_cellAt_Some)

lemma heap_routesEnabled_rep:
  assumes "spokeAt H this = Some s"
  shows "case heap_routesEnabled this H of
           (v, H') \<Rightarrow> keeps H H' \<and>
             (\<exists>A. repArrays H' v A \<and> mapValues snd A = routesEnabled s)"
proof -
  let ?H1 = "H @ [ChainObject []]"
  let ?r = "length H"
  have k1: "keeps H ?H1" by (rule keeps_append)
  have ev: "spoke_this_events ?H1 this = spoke_events s"
    using spokeAt_keeps [OF k1 assms] by (rule spoke_this_events)
  have rep0: "repSets (length H) ?H1 ?r []"
    by (simp add: repSets_def cellAt_def mapValues_def)
  from heap_routesEnabled_fold [OF k1 le_refl rep0, of "spoke_events s"]
  obtain G where k2: "keeps H (foldl (heap_routesEnabled_step ?r) ?H1 (spoke_events s))"
    and rep: "repSets (length H) (foldl (heap_routesEnabled_step ?r) ?H1 (spoke_events s)) ?r G"
    and er: "mapValues snd G = routesEnabled s"
    by (auto simp: routesEnabled_def mapValues_def)
  let ?H2 = "foldl (heap_routesEnabled_step ?r) ?H1 (spoke_events s)"
  from rep have cp: "chainProps ?H2 ?r = mapValues (\<lambda>x. Ref (fst x)) G"
    and cells: "\<forall>x \<in> set G. cellAt ?H2 (fst (snd x)) = Some (SetObject (snd (snd x)))"
    by (auto simp: repSets_def chainProps_cell)
  from heap_listSets [OF cells] obtain qs H3 A where
    ls: "heap_listSets (mapValues (\<lambda>x. Ref (fst x)) G) ?H2 = (qs, H3)"
    and k3: "keeps ?H2 H3" and qs: "qs = mapValues (\<lambda>x. Ref (fst x)) A"
    and erA: "mapValues snd A = mapValues snd G"
    and cellsA: "\<forall>x \<in> set A. cellAt H3 (fst (snd x)) = Some (ArrayObject (map Str (snd (snd x))))"
    by (cases "heap_listSets (mapValues (\<lambda>x. Ref (fst x)) G) ?H2") auto
  let ?H4 = "H3 @ [ChainObject qs]"
  have k4: "keeps H3 ?H4" by (rule keeps_append)
  have out: "heap_routesEnabled this H = (length H3, ?H4)"
    by (simp add: heap_routesEnabled_def alloc_def ev cp ls)
  have "repArrays ?H4 (length H3) A"
    using cellsA by (auto simp: repArrays_def qs cellAt_def nth_append intro: keeps_cellAt_Some [OF k4]
        dest: cellAt_Some_less split: if_splits)
  with keeps_trans [OF k2 keeps_trans [OF k3 k4]] erA er show ?thesis
    unfolding out by auto
qed

lemma heap_routesEnabled_returns:
  assumes "spokeAt H this = Some s"
  shows "case heap_routesEnabled this H of
           (v, H') \<Rightarrow> keeps H H' \<and>
             (\<forall>H''. keeps H' H'' \<longrightarrow> routeTableAt H'' v = routesEnabled s)"
  using heap_routesEnabled_rep [OF assms]
  by (auto simp: repArrays_routeTableAt [OF repArrays_keeps])

lemma heap_getSupportedChains_returns:
  assumes "spokeAt H this = Some s"
  shows "case heap_getSupportedChains this H of
           (v, H') \<Rightarrow> keeps H H' \<and>
             (\<forall>H''. keeps H' H'' \<longrightarrow> numberArrayAt H'' v = getSupportedChains s)"
proof -
  from heap_routesEnabled_rep [OF assms] obtain t H1 A where
    t: "heap_routesEnabled this H = (t, H1)" and k: "keeps H H1"
    and rep: "repArrays H1 t A" and er: "mapValues snd A = routesEnabled s"
    by (cases "heap_routesEnabled this H") auto
  from rep have cp: "chainProps H1 t = mapValues (\<lambda>x. Ref (fst x)) A"
    by (simp add: repArrays_def chainProps_cell)
  have keys: "map fst A = map fst (routesEnabled s)"
    using er by (metis keys_mapValues)
  let ?vs = "map (\<lambda>k. Num (Number k)) (map fst A)"
  have out: "heap_getSupportedChains this H = (length H1, H1 @ [ArrayObject ?vs])"
    by (simp add: heap_getSupportedChains_def t cp map_comp_fst_mapValues alloc_def)
  have c: "cellAt (H1 @ [ArrayObject ?vs]) (length H1) = Some (ArrayObject ?vs)"
    by (simp add: cellAt_def)
  have "map numOf ?vs = getSupportedChains s"
    by (simp add: getSupportedChains_def comp_def numOf_def keys)
  with keeps_trans [OF k keeps_append] numberArrayAt_cell [OF c] show ?thesis
    unfolding out by simp
qed

lemma heap_addTokens_inner:
  "foldl (\<lambda>H'' token. writeCell (length H1)
            (SetObject (setAdd (strOf token) (setMembers H'' (length H1)))) H'')
     (H1 @ [SetObject acc]) (map Str ts)
   = H1 @ [SetObject (foldl (\<lambda>tokens t. setAdd t tokens) acc ts)]"
proof (induction ts arbitrary: acc)
  case Nil
  show ?case by simp
next
  case (Cons t ts)
  have "writeCell (length H1)
          (SetObject (setAdd (strOf (Str t)) (setMembers (H1 @ [SetObject acc]) (length H1))))
          (H1 @ [SetObject acc])
        = H1 @ [SetObject (setAdd t acc)]"
    by (simp add: writeCell_def setMembers_def cellAt_def strOf_def)
  then show ?case by (simp add: Cons.IH)
qed

lemma heap_addTokens_outer:
  "\<forall>x \<in> set A. cellAt H1 (fst (snd x)) = Some (ArrayObject (map Str (snd (snd x)))) \<Longrightarrow>
   foldl (\<lambda>H' v. foldl
            (\<lambda>H'' token. writeCell (length H1)
               (SetObject (setAdd (strOf token) (setMembers H'' (length H1)))) H'')
            H' (case v of Ref a \<Rightarrow> arrayElems H' a | _ \<Rightarrow> []))
     (H1 @ [SetObject acc]) (map (\<lambda>x. Ref (fst (snd x))) A)
   = H1 @ [SetObject (foldl (\<lambda>tokens t. setAdd t tokens) acc (concat (map (\<lambda>x. snd (snd x)) A)))]"
proof (induction A arbitrary: acc)
  case Nil
  show ?case by simp
next
  case (Cons x A)
  from Cons.prems have c: "cellAt H1 (fst (snd x)) = Some (ArrayObject (map Str (snd (snd x))))"
    by simp
  have "cellAt (H1 @ [SetObject acc]) (fst (snd x)) = Some (ArrayObject (map Str (snd (snd x))))"
    using keeps_cellAt_Some [OF keeps_append c] .
  then have ae: "arrayElems (H1 @ [SetObject acc]) (fst (snd x)) = map Str (snd (snd x))"
    by (simp add: arrayElems_def)
  from Cons.prems have rest: "\<forall>x \<in> set A. cellAt H1 (fst (snd x))
      = Some (ArrayObject (map Str (snd (snd x))))" by simp
  show ?case
    by (simp add: ae heap_addTokens_inner Cons.IH [OF rest])
qed

lemma heap_getSupportedTokens_returns:
  assumes "spokeAt H this = Some s"
  shows "case heap_getSupportedTokens this H of
           (v, H') \<Rightarrow> keeps H H' \<and>
             (\<forall>H''. keeps H' H'' \<longrightarrow> stringArrayAt H'' v = getSupportedTokens s)"
proof -
  from heap_routesEnabled_rep [OF assms] obtain t H1 A where
    t: "heap_routesEnabled this H = (t, H1)" and k: "keeps H H1"
    and rep: "repArrays H1 t A" and er: "mapValues snd A = routesEnabled s"
    by (cases "heap_routesEnabled this H") auto
  from rep have top: "cellAt H1 t = Some (ChainObject (mapValues (\<lambda>x. Ref (fst x)) A))"
    and cells: "\<forall>x \<in> set A. cellAt H1 (fst (snd x)) = Some (ArrayObject (map Str (snd (snd x))))"
    by (auto simp: repArrays_def)
  have cp: "chainProps (H1 @ [SetObject []]) t = mapValues (\<lambda>x. Ref (fst x)) A"
    using keeps_cellAt_Some [OF keeps_append top] by (rule chainProps_cell)
  have vals: "map snd (mapValues (\<lambda>x. Ref (fst x)) A) = map (\<lambda>x. Ref (fst (snd x))) A"
    by (simp add: mapValues_def)
  let ?mem = "foldl (\<lambda>tokens t. setAdd t tokens) [] (concat (map (\<lambda>x. snd (snd x)) A))"
  let ?H3 = "H1 @ [SetObject ?mem]"
  have sm: "setMembers ?H3 (length H1) = ?mem" by (simp add: setMembers_def cellAt_def)
  have out: "heap_getSupportedTokens this H
               = (Suc (length H1), ?H3 @ [ArrayObject (map Str ?mem)])"
    by (simp add: heap_getSupportedTokens_def t alloc_def cp vals
        heap_addTokens_outer [OF cells] sm del: foldl_append)
  have "map (\<lambda>x. snd (snd x)) A = map snd (routesEnabled s)"
    using er by (simp add: mapValues_def comp_def flip: er)
  then have g: "getSupportedTokens s = ?mem" by (simp add: getSupportedTokens_def)
  have c: "cellAt (?H3 @ [ArrayObject (map Str ?mem)]) (Suc (length H1))
      = Some (ArrayObject (map Str ?mem))"
    by (simp add: cellAt_def nth_append)
  have k': "keeps H (?H3 @ [ArrayObject (map Str ?mem)])"
    using k by (auto simp: keeps_iff)
  from k' stringArrayAt_cell [OF c] show ?thesis
    unfolding out by (simp add: g strOf_Str_comp)
qed

text \<open>
  \<^verbatim>\<open>getRoutes\<close>: the three statements of the callback, each with what it does to the
  invariant \<open>repRoutes\<close>.
\<close>

lemma set_setChainProp_absent:
  "map_of ps k = None \<Longrightarrow> set (setChainProp k v ps) = insert (k, v) (set ps)"
  by (simp add: setChainProp_def set_addChainProp)

lemma modifyProp_id:
  "(\<And>x. x \<in> set ps \<Longrightarrow> fst x = k \<Longrightarrow> g (snd x) = snd x) \<Longrightarrow> modifyProp k g ps = ps"
  by (induction ps) (auto simp: modifyProp_def)

lemma mem_modifyProp:
  assumes "x \<in> set (modifyProp k g ps)"
  obtains y where "y \<in> set ps" and "x = (if fst y = k then (fst y, g (snd y)) else y)"
proof -
  from assms have "x \<in> (\<lambda>p. if fst p = k then (fst p, g (snd p)) else p) ` set ps"
    by (simp add: set_modifyProp)
  then obtain y where "y \<in> set ps" "x = (if fst y = k then (fst y, g (snd y)) else y)"
    by (rule imageE)
  then show thesis by (rule that)
qed

lemma repRoutesD:
  assumes "repRoutes lo H r G"
  shows "cellAt H r = Some (ChainObject (mapValues (\<lambda>x. Ref (fst x)) G))"
    and "distinct (map fst G)" and "distinct (map (\<lambda>x. fst (snd x)) G)"
    and "\<And>x. x \<in> set G \<Longrightarrow> lo \<le> fst (snd x) \<and> fst (snd x) \<noteq> r \<and>
        cellAt H (fst (snd x))
          = Some (ChainObject (mapValues (\<lambda>y. Ref (fst y)) (snd (snd x)))) \<and>
        distinct (map fst (snd (snd x)))"
    and "\<And>x y. x \<in> set G \<Longrightarrow> y \<in> set (snd (snd x)) \<Longrightarrow> lo \<le> fst (snd y) \<and>
           cellAt H (fst (snd y)) = Some (AddrObject (mapValues Bool (snd (snd y))))"
    and "\<And>x x' y y'. x \<in> set G \<Longrightarrow> x' \<in> set G \<Longrightarrow> y \<in> set (snd (snd x)) \<Longrightarrow>
           y' \<in> set (snd (snd x')) \<Longrightarrow> fst (snd y) = fst (snd y') \<Longrightarrow>
           fst x = fst x' \<and> fst y = fst y'"
  using assms unfolding repRoutes_def by blast+

lemma repRoutesI:
  assumes "cellAt H r = Some (ChainObject (mapValues (\<lambda>x. Ref (fst x)) G))"
    and "distinct (map fst G)" and "distinct (map (\<lambda>x. fst (snd x)) G)"
    and "\<And>x. x \<in> set G \<Longrightarrow> lo \<le> fst (snd x) \<and> fst (snd x) \<noteq> r \<and>
        cellAt H (fst (snd x))
          = Some (ChainObject (mapValues (\<lambda>y. Ref (fst y)) (snd (snd x)))) \<and>
        distinct (map fst (snd (snd x)))"
    and "\<And>x y. x \<in> set G \<Longrightarrow> y \<in> set (snd (snd x)) \<Longrightarrow> lo \<le> fst (snd y) \<and>
           cellAt H (fst (snd y)) = Some (AddrObject (mapValues Bool (snd (snd y))))"
    and "\<And>x x' y y'. x \<in> set G \<Longrightarrow> x' \<in> set G \<Longrightarrow> y \<in> set (snd (snd x)) \<Longrightarrow>
           y' \<in> set (snd (snd x')) \<Longrightarrow> fst (snd y) = fst (snd y') \<Longrightarrow>
           fst x = fst x' \<and> fst y = fst y'"
  shows "repRoutes lo H r G"
  unfolding repRoutes_def using assms by blast

lemma repRoutes_ensure_outer:
  assumes k: "keeps H0 H" and r: "length H0 \<le> r" and rep: "repRoutes (length H0) H r G"
    and absent: "map_of G c = None"
  defines "H1 \<equiv> writeCell r (ChainObject (setChainProp c (Ref (length H))
                     (chainProps (H @ [ChainObject []]) r))) (H @ [ChainObject []])"
  shows "keeps H0 H1 \<and> repRoutes (length H0) H1 r (setChainProp c (length H, []) G)"
proof -
  let ?G = "setChainProp c (length H, []) G"
  let ?Ha = "H @ [ChainObject []]"
  note top = repRoutesD(1) [OF rep] and dk = repRoutesD(2) [OF rep]
    and dr = repRoutesD(3) [OF rep] and mids = repRoutesD(4) [OF rep]
    and leaves = repRoutesD(5) [OF rep] and sep = repRoutesD(6) [OF rep]
  have rl: "r < length H" using top by (rule cellAt_Some_less)
  have kH: "keeps H ?Ha" by (rule keeps_append)
  have cp: "chainProps ?Ha r = mapValues (\<lambda>x. Ref (fst x)) G"
    using keeps_cellAt_Some [OF kH top] by (rule chainProps_cell)
  have H1: "H1 = writeCell r (ChainObject (mapValues (\<lambda>x. Ref (fst x)) ?G)) ?Ha"
    by (simp add: H1_def cp mapValues_setChainProp)
  have k1: "keeps H0 H1"
    unfolding H1 using keeps_trans [OF k kH] r by (rule keeps_writeCell)
  have other: "\<And>x c'. x \<noteq> r \<Longrightarrow> cellAt H x = Some c' \<Longrightarrow> cellAt H1 x = Some c'"
    unfolding H1 by (simp add: cellAt_writeCell keeps_cellAt_Some [OF kH])
  have new: "cellAt H1 (length H) = Some (ChainObject [])"
  proof -
    have "cellAt H1 (length H) = cellAt ?Ha (length H)"
      unfolding H1 using rl by (simp add: cellAt_writeCell)
    then show ?thesis by (simp add: cellAt_def)
  qed
  have setG: "set ?G = insert (c, length H, []) (set G)"
    using absent by (rule set_setChainProp_absent)
  have G: "?G = addChainProp c (length H, []) G" using absent by (rule setChainProp_absent)
  have "repRoutes (length H0) H1 r ?G"
  proof (rule repRoutesI)
    show "cellAt H1 r = Some (ChainObject (mapValues (\<lambda>x. Ref (fst x)) ?G))"
      unfolding H1 using rl by (simp add: cellAt_writeCell)
    show "distinct (map fst ?G)" using dk by (rule distinct_setChainProp)
    have "length H \<notin> (\<lambda>x. fst (snd x)) ` set G"
    proof
      assume "length H \<in> (\<lambda>x. fst (snd x)) ` set G"
      then obtain x where "x \<in> set G" "fst (snd x) = length H" by auto
      with mids [of x] cellAt_Some_less [of H "length H"] show False by auto
    qed
    then show "distinct (map (\<lambda>x. fst (snd x)) ?G)"
      unfolding G using dr by (simp add: distinct_map_addChainProp)
  next
    fix x assume "x \<in> set ?G"
    then consider "x = (c, length H, [])" | "x \<in> set G" unfolding setG by auto
    then show "length H0 \<le> fst (snd x) \<and> fst (snd x) \<noteq> r \<and>
        cellAt H1 (fst (snd x))
          = Some (ChainObject (mapValues (\<lambda>y. Ref (fst y)) (snd (snd x)))) \<and>
        distinct (map fst (snd (snd x)))"
    proof cases
      case 1
      with new rl keeps_length [OF k] show ?thesis by (simp add: mapValues_def)
    next
      case 2
      from mids [OF 2] other [of "fst (snd x)"] show ?thesis by simp
    qed
  next
    fix x y assume "x \<in> set ?G" "y \<in> set (snd (snd x))"
    then have x: "x \<in> set G" unfolding setG by auto
    from leaves [OF x \<open>y \<in> set (snd (snd x))\<close>] top
    have "fst (snd y) \<noteq> r" by auto
    with leaves [OF x \<open>y \<in> set (snd (snd x))\<close>] other [of "fst (snd y)"]
    show "length H0 \<le> fst (snd y) \<and>
           cellAt H1 (fst (snd y)) = Some (AddrObject (mapValues Bool (snd (snd y))))"
      by simp
  next
    fix x x' y y'
    assume "x \<in> set ?G" "x' \<in> set ?G" "y \<in> set (snd (snd x))" "y' \<in> set (snd (snd x'))"
      "fst (snd y) = fst (snd y')"
    moreover from this have "x \<in> set G" "x' \<in> set G" unfolding setG by auto
    ultimately show "fst x = fst x' \<and> fst y = fst y'" using sep by blast
  qed
  with k1 show ?thesis by simp
qed

lemma repRoutes_ensure_inner:
  assumes k: "keeps H0 H" and rep: "repRoutes (length H0) H r G"
    and outer: "map_of G c = Some (p, M)" and absent: "map_of M d = None"
  defines "H1 \<equiv> writeCell p (ChainObject (setChainProp d (Ref (length H))
                     (chainProps (H @ [AddrObject []]) p))) (H @ [AddrObject []])"
  shows "keeps H0 H1 \<and>
         repRoutes (length H0) H1 r
           (modifyProp c (\<lambda>x. (fst x, setChainProp d (length H, []) (snd x))) G)"
proof -
  let ?g = "\<lambda>x. (fst x, setChainProp d (length H, []) (snd x))"
  let ?G = "modifyProp c ?g G"
  let ?M = "setChainProp d (length H, []) M"
  let ?Ha = "H @ [AddrObject []]"
  note top = repRoutesD(1) [OF rep] and dk = repRoutesD(2) [OF rep]
    and dr = repRoutesD(3) [OF rep] and mids = repRoutesD(4) [OF rep]
    and leaves = repRoutesD(5) [OF rep] and sep = repRoutesD(6) [OF rep]
  from outer have mem: "(c, p, M) \<in> set G" by (rule map_of_SomeD)
  from mids [OF mem] have lo: "length H0 \<le> p" and pr: "p \<noteq> r"
    and cp: "cellAt H p = Some (ChainObject (mapValues (\<lambda>y. Ref (fst y)) M))"
    and dM: "distinct (map fst M)" by auto
  have pl: "p < length H" using cp by (rule cellAt_Some_less)
  have kH: "keeps H ?Ha" by (rule keeps_append)
  have cpa: "chainProps ?Ha p = mapValues (\<lambda>y. Ref (fst y)) M"
    using keeps_cellAt_Some [OF kH cp] by (rule chainProps_cell)
  have H1: "H1 = writeCell p (ChainObject (mapValues (\<lambda>y. Ref (fst y)) ?M)) ?Ha"
    by (simp add: H1_def cpa mapValues_setChainProp)
  have k1: "keeps H0 H1"
    unfolding H1 using keeps_trans [OF k kH] lo by (rule keeps_writeCell)
  have other: "\<And>x c'. x \<noteq> p \<Longrightarrow> cellAt H x = Some c' \<Longrightarrow> cellAt H1 x = Some c'"
    unfolding H1 by (simp add: cellAt_writeCell keeps_cellAt_Some [OF kH])
  have atp: "cellAt H1 p = Some (ChainObject (mapValues (\<lambda>y. Ref (fst y)) ?M))"
    unfolding H1 using pl by (simp add: cellAt_writeCell)
  have new: "cellAt H1 (length H) = Some (AddrObject [])"
  proof -
    have "cellAt H1 (length H) = cellAt ?Ha (length H)"
      unfolding H1 using pl by (simp add: cellAt_writeCell)
    then show ?thesis by (simp add: cellAt_def)
  qed
  have setM: "set ?M = insert (d, length H, []) (set M)"
    using absent by (rule set_setChainProp_absent)
  have inj: "inj_on (\<lambda>x. fst (snd x)) (set G)" using dr by (simp add: distinct_map)
  have origin: "\<And>x. x \<in> set ?G \<Longrightarrow>
      (x = (c, p, ?M)) \<or> (x \<in> set G \<and> fst x \<noteq> c \<and> fst (snd x) \<noteq> p)"
  proof -
    fix x assume "x \<in> set ?G"
    then obtain y where y: "y \<in> set G"
      and x: "x = (if fst y = c then (fst y, ?g (snd y)) else y)"
      by (rule mem_modifyProp)
    show "(x = (c, p, ?M)) \<or> (x \<in> set G \<and> fst x \<noteq> c \<and> fst (snd x) \<noteq> p)"
    proof (cases "fst y = c")
      case True
      from map_of_distinct_mem [OF dk outer y True] x show ?thesis by simp
    next
      case False
      have "fst (snd y) \<noteq> p"
      proof
        assume "fst (snd y) = p"
        then have "(\<lambda>x. fst (snd x)) y = (\<lambda>x. fst (snd x)) (c, p, M)" by simp
        from inj_onD [OF inj this y mem] False show False by simp
      qed
      with False x y show ?thesis by simp
    qed
  qed
  have leafref: "\<And>x y. x \<in> set G \<Longrightarrow> y \<in> set (snd (snd x)) \<Longrightarrow>
      fst (snd y) < length H \<and> fst (snd y) \<noteq> p"
  proof -
    fix x y assume "x \<in> set G" "y \<in> set (snd (snd x))"
    from leaves [OF this] cp cellAt_Some_less [of H "fst (snd y)"]
    show "fst (snd y) < length H \<and> fst (snd y) \<noteq> p" by auto
  qed
  have "repRoutes (length H0) H1 r ?G"
  proof (rule repRoutesI)
    have "mapValues (\<lambda>x. Ref (fst x)) ?G = mapValues (\<lambda>x. Ref (fst x)) G"
      by (rule mapValues_modifyProp_same) simp
    with top pr show "cellAt H1 r = Some (ChainObject (mapValues (\<lambda>x. Ref (fst x)) ?G))"
      using other [of r] by simp
    show "distinct (map fst ?G)" using dk by (simp add: keys_modifyProp)
    show "distinct (map (\<lambda>x. fst (snd x)) ?G)"
      using dr by (simp add: map_modifyProp_same [where h = fst])
  next
    fix x assume "x \<in> set ?G"
    from origin [OF this]
    show "length H0 \<le> fst (snd x) \<and> fst (snd x) \<noteq> r \<and>
        cellAt H1 (fst (snd x))
          = Some (ChainObject (mapValues (\<lambda>y. Ref (fst y)) (snd (snd x)))) \<and>
        distinct (map fst (snd (snd x)))"
    proof
      assume "x = (c, p, ?M)"
      with lo pr atp dM show ?thesis by (simp add: distinct_setChainProp)
    next
      assume a: "x \<in> set G \<and> fst x \<noteq> c \<and> fst (snd x) \<noteq> p"
      with mids [of x] other [of "fst (snd x)"] show ?thesis by simp
    qed
  next
    fix x y assume xy: "x \<in> set ?G" "y \<in> set (snd (snd x))"
    from origin [OF xy(1)]
    show "length H0 \<le> fst (snd y) \<and>
           cellAt H1 (fst (snd y)) = Some (AddrObject (mapValues Bool (snd (snd y))))"
    proof
      assume "x = (c, p, ?M)"
      with xy(2) setM consider "y = (d, length H, [])" | "y \<in> set M" by auto
      then show ?thesis
      proof cases
        case 1
        with new keeps_length [OF k] show ?thesis by (simp add: mapValues_def)
      next
        case 2
        with leaves [OF mem, of y] leafref [OF mem, of y] other [of "fst (snd y)"]
        show ?thesis by simp
      qed
    next
      assume a: "x \<in> set G \<and> fst x \<noteq> c \<and> fst (snd x) \<noteq> p"
      with leaves [of x y] leafref [of x y] other [of "fst (snd y)"] xy(2)
      show ?thesis by simp
    qed
  next
    fix x x' y y'
    assume xs: "x \<in> set ?G" "x' \<in> set ?G"
      and ys: "y \<in> set (snd (snd x))" "y' \<in> set (snd (snd x'))"
      and eq: "fst (snd y) = fst (snd y')"
    have old: "\<And>x y. x \<in> set ?G \<Longrightarrow> y \<in> set (snd (snd x)) \<Longrightarrow>
        (fst x = c \<and> y = (d, length H, [])) \<or>
        (\<exists>z \<in> set G. fst z = fst x \<and> y \<in> set (snd (snd z)))"
    proof -
      fix x y assume a: "x \<in> set ?G" "y \<in> set (snd (snd x))"
      from origin [OF a(1)]
      show "(fst x = c \<and> y = (d, length H, [])) \<or>
        (\<exists>z \<in> set G. fst z = fst x \<and> y \<in> set (snd (snd z)))"
      proof
        assume "x = (c, p, ?M)"
        with a(2) setM mem show ?thesis by force
      next
        assume "x \<in> set G \<and> fst x \<noteq> c \<and> fst (snd x) \<noteq> p"
        with a(2) show ?thesis by blast
      qed
    qed
    from old [OF xs(1) ys(1)] old [OF xs(2) ys(2)]
    show "fst x = fst x' \<and> fst y = fst y'"
    proof (elim disjE)
      assume "fst x = c \<and> y = (d, length H, [])" "fst x' = c \<and> y' = (d, length H, [])"
      then show ?thesis by simp
    next
      assume a: "fst x = c \<and> y = (d, length H, [])"
        and b: "\<exists>z \<in> set G. fst z = fst x' \<and> y' \<in> set (snd (snd z))"
      from b obtain z where "z \<in> set G" "y' \<in> set (snd (snd z))" by blast
      from leafref [OF this] a eq show ?thesis by simp
    next
      assume b: "\<exists>z \<in> set G. fst z = fst x \<and> y \<in> set (snd (snd z))"
        and a: "fst x' = c \<and> y' = (d, length H, [])"
      from b obtain z where "z \<in> set G" "y \<in> set (snd (snd z))" by blast
      from leafref [OF this] a eq show ?thesis by simp
    next
      assume "\<exists>z \<in> set G. fst z = fst x \<and> y \<in> set (snd (snd z))"
        "\<exists>z \<in> set G. fst z = fst x' \<and> y' \<in> set (snd (snd z))"
      then obtain z z' where "z \<in> set G" "fst z = fst x" "y \<in> set (snd (snd z))"
        "z' \<in> set G" "fst z' = fst x'" "y' \<in> set (snd (snd z'))" by blast
      with sep [of z z' y y'] eq show ?thesis by simp
    qed
  qed
  with k1 show ?thesis by simp
qed

lemma modifyProp_cong:
  "(\<And>x. x \<in> set ps \<Longrightarrow> fst x = k \<Longrightarrow> g (snd x) = g' (snd x)) \<Longrightarrow>
   modifyProp k g ps = modifyProp k g' ps"
  by (induction ps) (auto simp: modifyProp_def)

lemma mapValues_Nil: "mapValues f [] = []"
  by (simp add: mapValues_def)

lemma boolOf_Bool: "mapValues boolOf (mapValues Bool L) = L"
  by (induction L) (simp_all add: mapValues_def boolOf_def)

lemma repRoutes_write_leaf:
  assumes k: "keeps H0 H" and rep: "repRoutes (length H0) H r G"
    and outer: "map_of G c = Some (p, M)" and inner: "map_of M d = Some (q, L)"
  shows "keeps H0 (writeCell q (AddrObject (mapValues Bool (f L))) H) \<and>
         repRoutes (length H0) (writeCell q (AddrObject (mapValues Bool (f L))) H) r
           (modifyProp c (\<lambda>x. (fst x, modifyProp d (\<lambda>y. (fst y, f (snd y))) (snd x))) G)"
proof -
  define H1 where "H1 = writeCell q (AddrObject (mapValues Bool (f L))) H"
  let ?h = "\<lambda>y. (fst y, f (snd y))"
  let ?g = "\<lambda>x. (fst x, modifyProp d ?h (snd x))"
  let ?G = "modifyProp c ?g G"
  note top = repRoutesD(1) [OF rep] and dk = repRoutesD(2) [OF rep]
    and dr = repRoutesD(3) [OF rep] and mids = repRoutesD(4) [OF rep]
    and leaves = repRoutesD(5) [OF rep] and sep = repRoutesD(6) [OF rep]
  from outer have mem: "(c, p, M) \<in> set G" by (rule map_of_SomeD)
  from inner have memL: "(d, q, L) \<in> set M" by (rule map_of_SomeD)
  from mids [OF mem] have dM: "distinct (map fst M)" by simp
  from leaves [OF mem, of "(d, q, L)"] memL
  have lo: "length H0 \<le> q" and cq: "cellAt H q = Some (AddrObject (mapValues Bool L))"
    by auto
  have ql: "q < length H" using cq by (rule cellAt_Some_less)
  have k1: "keeps H0 H1" unfolding H1_def using k lo by (rule keeps_writeCell)
  have other: "\<And>x c'. x \<noteq> q \<Longrightarrow> cellAt H x = Some c' \<Longrightarrow> cellAt H1 x = Some c'"
    unfolding H1_def by (simp add: cellAt_writeCell)
  have atq: "cellAt H1 q = Some (AddrObject (mapValues Bool (f L)))"
    unfolding H1_def using ql by (simp add: cellAt_writeCell)
  have qr: "q \<noteq> r" using cq top by auto
  have qmid: "\<And>z. z \<in> set G \<Longrightarrow> fst (snd z) \<noteq> q"
  proof -
    fix z assume "z \<in> set G"
    from mids [OF this] cq show "fst (snd z) \<noteq> q" by auto
  qed
  have outerD: "\<And>x. x \<in> set ?G \<Longrightarrow>
      \<exists>z \<in> set G. fst z = fst x \<and> fst (snd z) = fst (snd x) \<and>
        snd (snd x) = (if fst z = c then modifyProp d ?h (snd (snd z)) else snd (snd z))"
  proof -
    fix x assume "x \<in> set ?G"
    then obtain z where z: "z \<in> set G"
      and x: "x = (if fst z = c then (fst z, ?g (snd z)) else z)"
      by (rule mem_modifyProp)
    then show "\<exists>z \<in> set G. fst z = fst x \<and> fst (snd z) = fst (snd x) \<and>
        snd (snd x) = (if fst z = c then modifyProp d ?h (snd (snd z)) else snd (snd z))"
      by (intro bexI [of _ z]) auto
  qed
  have leafD: "\<And>x y. x \<in> set ?G \<Longrightarrow> y \<in> set (snd (snd x)) \<Longrightarrow>
      \<exists>z \<in> set G. \<exists>w \<in> set (snd (snd z)).
        fst z = fst x \<and> fst w = fst y \<and> fst (snd w) = fst (snd y) \<and>
        snd (snd y) = (if fst z = c \<and> fst w = d then f (snd (snd w)) else snd (snd w))"
  proof -
    fix x y assume x: "x \<in> set ?G" and y: "y \<in> set (snd (snd x))"
    from outerD [OF x] obtain z where z: "z \<in> set G" "fst z = fst x"
      "snd (snd x) = (if fst z = c then modifyProp d ?h (snd (snd z)) else snd (snd z))"
      by blast
    show "\<exists>z \<in> set G. \<exists>w \<in> set (snd (snd z)).
        fst z = fst x \<and> fst w = fst y \<and> fst (snd w) = fst (snd y) \<and>
        snd (snd y) = (if fst z = c \<and> fst w = d then f (snd (snd w)) else snd (snd w))"
    proof (cases "fst z = c")
      case True
      with y z(3) have "y \<in> set (modifyProp d ?h (snd (snd z)))" by simp
      then obtain w where w: "w \<in> set (snd (snd z))"
        and yw: "y = (if fst w = d then (fst w, ?h (snd w)) else w)"
        by (rule mem_modifyProp)
      from z(1,2) w yw True show ?thesis
        by (intro bexI [of _ z] bexI [of _ w]) auto
    next
      case False
      with y z show ?thesis by (intro bexI [of _ z] bexI [of _ y]) auto
    qed
  qed
  have "repRoutes (length H0) H1 r ?G"
  proof (rule repRoutesI)
    have "mapValues (\<lambda>x. Ref (fst x)) ?G = mapValues (\<lambda>x. Ref (fst x)) G"
      by (rule mapValues_modifyProp_same) simp
    with top qr show "cellAt H1 r = Some (ChainObject (mapValues (\<lambda>x. Ref (fst x)) ?G))"
      using other [of r] by simp
    show "distinct (map fst ?G)" using dk by (simp add: keys_modifyProp)
    show "distinct (map (\<lambda>x. fst (snd x)) ?G)"
      using dr by (simp add: map_modifyProp_same [where h = fst])
  next
    fix x assume "x \<in> set ?G"
    from outerD [OF this] obtain z where z: "z \<in> set G" "fst z = fst x"
      "fst (snd z) = fst (snd x)"
      "snd (snd x) = (if fst z = c then modifyProp d ?h (snd (snd z)) else snd (snd z))"
      by blast
    have m: "mapValues (\<lambda>y. Ref (fst y)) (modifyProp d ?h (snd (snd z)))
        = mapValues (\<lambda>y. Ref (fst y)) (snd (snd z))"
      by (rule mapValues_modifyProp_same) simp
    from mids [OF z(1)] qmid [OF z(1)] other [of "fst (snd z)"] z(3,4) m
    show "length H0 \<le> fst (snd x) \<and> fst (snd x) \<noteq> r \<and>
        cellAt H1 (fst (snd x))
          = Some (ChainObject (mapValues (\<lambda>y. Ref (fst y)) (snd (snd x)))) \<and>
        distinct (map fst (snd (snd x)))"
      by (simp add: keys_modifyProp)
  next
    fix x y assume "x \<in> set ?G" "y \<in> set (snd (snd x))"
    from leafD [OF this] obtain z w where z: "z \<in> set G" and w: "w \<in> set (snd (snd z))"
      and e: "fst z = fst x" "fst w = fst y" "fst (snd w) = fst (snd y)"
        "snd (snd y) = (if fst z = c \<and> fst w = d then f (snd (snd w)) else snd (snd w))"
      by blast
    show "length H0 \<le> fst (snd y) \<and>
           cellAt H1 (fst (snd y)) = Some (AddrObject (mapValues Bool (snd (snd y))))"
    proof (cases "fst z = c \<and> fst w = d")
      case True
      with map_of_distinct_mem [OF dk outer z] have "z = (c, p, M)" by simp
      with w have "w \<in> set M" by simp
      from map_of_distinct_mem [OF dM inner this] True have "w = (d, q, L)" by simp
      with True e atq lo show ?thesis by simp
    next
      case False
      have "fst (snd w) \<noteq> q"
      proof
        assume "fst (snd w) = q"
        with sep [OF z mem w, of "(d, q, L)"] memL False show False by simp
      qed
      moreover from e(4) False have "snd (snd y) = snd (snd w)" by simp
      ultimately show ?thesis
        using leaves [OF z w] other [of "fst (snd w)"] e(3) by simp
    qed
  next
    fix x x' y y'
    assume a: "x \<in> set ?G" "x' \<in> set ?G" "y \<in> set (snd (snd x))"
      "y' \<in> set (snd (snd x'))" "fst (snd y) = fst (snd y')"
    from leafD [OF a(1,3)] obtain z w where z: "z \<in> set G" "w \<in> set (snd (snd z))"
      "fst z = fst x" "fst w = fst y" "fst (snd w) = fst (snd y)" by blast
    from leafD [OF a(2,4)] obtain z' w' where z': "z' \<in> set G" "w' \<in> set (snd (snd z'))"
      "fst z' = fst x'" "fst w' = fst y'" "fst (snd w') = fst (snd y')" by blast
    from sep [OF z(1) z'(1) z(2) z'(2)] z(3-5) z'(3-5) a(5)
    show "fst x = fst x' \<and> fst y = fst y'" by simp
  qed
  with k1 show ?thesis by (simp add: H1_def)
qed

lemma repRoutes_lookup:
  assumes "repRoutes lo H r G"
  shows "map_of (chainProps H r) c = map_option (\<lambda>x. Ref (fst x)) (map_of G c)"
    and "map_of G c = Some (p, M) \<Longrightarrow>
         map_of (chainProps H p) d = map_option (\<lambda>y. Ref (fst y)) (map_of M d)"
    and "map_of G c = Some (p, M) \<Longrightarrow> map_of M d = Some (q, L) \<Longrightarrow>
         addrProps H q = mapValues Bool L"
proof -
  show "map_of (chainProps H r) c = map_option (\<lambda>x. Ref (fst x)) (map_of G c)"
    using repRoutesD(1) [OF assms] by (simp add: chainProps_cell map_of_mapValues)
  assume "map_of G c = Some (p, M)"
  then have mem: "(c, p, M) \<in> set G" by (rule map_of_SomeD)
  from repRoutesD(4) [OF assms mem]
  show "map_of (chainProps H p) d = map_option (\<lambda>y. Ref (fst y)) (map_of M d)"
    by (simp add: chainProps_cell map_of_mapValues)
  assume "map_of M d = Some (q, L)"
  then have "(d, q, L) \<in> set M" by (rule map_of_SomeD)
  from repRoutesD(5) [OF assms mem, of "(d, q, L)"] this
  show "addrProps H q = mapValues Bool L" by (simp add: addrProps_cell)
qed

lemma heap_getRoutes_step:
  assumes k: "keeps H0 H" and r: "length H0 \<le> r" and rep: "repRoutes (length H0) H r G"
  shows "\<exists>G'. keeps H0 (heap_getRoutes_step r H e) \<and>
           repRoutes (length H0) (heap_getRoutes_step r H e) r G' \<and>
           eraseRefs G' = getRoutes_step (eraseRefs G) e"
proof (cases "isSetEnableDepositRoute e")
  case False
  with k rep show ?thesis
    by (auto simp: heap_getRoutes_step_def getRoutes_step_def)
next
  case True
  then obtain c d t b where a: "args e = SetEnableDepositRoute c d t b"
    by (cases "args e") auto
  define H1 where "H1 = (if map_of (chainProps H r) c = None
                          then (case alloc (ChainObject []) H of
                                  (p, H') \<Rightarrow>
                                    writeCell r
                                      (ChainObject (setChainProp c (Ref p)
                                                      (chainProps H' r))) H')
                          else H)"
  define G1 where "G1 = (if map_of G c = None then setChainProp c (length H, []) G else G)"
  have none_iff: "map_of (chainProps H r) c = None \<longleftrightarrow> map_of G c = None"
    by (simp add: repRoutes_lookup(1) [OF rep])
  have s1: "keeps H0 H1 \<and> repRoutes (length H0) H1 r G1"
  proof (cases "map_of G c = None")
    case True
    from repRoutes_ensure_outer [OF k r rep True] True none_iff show ?thesis
      by (simp add: H1_def G1_def alloc_def)
  next
    case False
    have "H1 = H" by (simp add: H1_def none_iff False)
    moreover have "G1 = G" by (simp add: G1_def False)
    ultimately show ?thesis using k rep by simp
  qed
  then have k1: "keeps H0 H1" and rep1: "repRoutes (length H0) H1 r G1" by auto
  have "map_of G1 c \<noteq> None"
    by (simp add: G1_def map_of_setChainProp)
  then obtain p M where pM: "map_of G1 c = Some (p, M)" by auto
  have lk1: "map_of (chainProps H1 r) c = Some (Ref p)"
    by (simp add: repRoutes_lookup(1) [OF rep1] pM)
  define H2 where "H2 = (if map_of (chainProps H1 p) d = None
                          then (case alloc (AddrObject []) H1 of
                                  (q, H') \<Rightarrow>
                                    writeCell p
                                      (ChainObject (setChainProp d (Ref q)
                                                      (chainProps H' p))) H')
                          else H1)"
  define M2 where "M2 = (if map_of M d = None then setChainProp d (length H1, []) M else M)"
  define G2 where "G2 = (if map_of M d = None
                          then modifyProp c (\<lambda>x. (fst x, setChainProp d (length H1, []) (snd x))) G1
                          else G1)"
  have none_iff2: "map_of (chainProps H1 p) d = None \<longleftrightarrow> map_of M d = None"
    by (simp add: repRoutes_lookup(2) [OF rep1 pM])
  have s2: "keeps H0 H2 \<and> repRoutes (length H0) H2 r G2"
  proof (cases "map_of M d = None")
    case True
    from repRoutes_ensure_inner [OF k1 rep1 pM True] True none_iff2 show ?thesis
      by (simp add: H2_def G2_def alloc_def)
  next
    case False
    have "H2 = H1" by (simp add: H2_def none_iff2 False)
    moreover have "G2 = G1" by (simp add: G2_def False)
    ultimately show ?thesis using k1 rep1 by simp
  qed
  then have k2: "keeps H0 H2" and rep2: "repRoutes (length H0) H2 r G2" by auto
  have pM2: "map_of G2 c = Some (p, M2)"
    by (simp add: G2_def M2_def map_of_modifyProp pM)
  have "map_of M2 d \<noteq> None" by (simp add: M2_def map_of_setChainProp)
  then obtain q L where qL: "map_of M2 d = Some (q, L)" by auto
  have lk2: "map_of (chainProps H2 r) c = Some (Ref p)"
    by (simp add: repRoutes_lookup(1) [OF rep2] pM2)
  have lk3: "map_of (chainProps H2 p) d = Some (Ref q)"
    by (simp add: repRoutes_lookup(2) [OF rep2 pM2] qL)
  have ap: "addrProps H2 q = mapValues Bool L"
    using rep2 pM2 qL by (rule repRoutes_lookup(3))
  have step: "heap_getRoutes_step r H e
      = writeCell q (AddrObject (mapValues Bool (setProp t b L))) H2"
    using True a lk1 lk2 lk3 ap
    by (simp add: heap_getRoutes_step_def Let_def H1_def [symmetric] H2_def [symmetric]
        mapValues_setProp)
  let ?G3 = "modifyProp c (\<lambda>x. (fst x, modifyProp d (\<lambda>y. (fst y, setProp t b (snd y))) (snd x))) G2"
  from repRoutes_write_leaf [OF k2 rep2 pM2 qL, of "setProp t b"]
  have k3: "keeps H0 (heap_getRoutes_step r H e)"
    and rep3: "repRoutes (length H0) (heap_getRoutes_step r H e) r ?G3"
    by (simp_all add: step)
  have e1: "eraseRefs G1
     = (if map_of (eraseRefs G) c = None then setChainProp c [] (eraseRefs G)
        else eraseRefs G)"
    by (simp add: G1_def eraseRefs_def map_of_mapValues mapValues_setChainProp mapValues_Nil)
  let ?u = "\<lambda>inner. if map_of inner d = None then setChainProp d [] inner else inner"
  have e2: "eraseRefs G2 = modifyProp c ?u (eraseRefs G1)"
  proof -
    let ?gU = "\<lambda>x. (fst x, if map_of (snd x) d = None
                              then setChainProp d (length H1, []) (snd x) else snd x)"
    have "G2 = modifyProp c ?gU G1"
    proof (cases "map_of M d = None")
      case True
      have "modifyProp c (\<lambda>x. (fst x, setChainProp d (length H1, []) (snd x))) G1
          = modifyProp c ?gU G1"
      proof (rule modifyProp_cong)
        fix x assume "x \<in> set G1" "fst x = c"
        from map_of_distinct_mem [OF repRoutesD(2) [OF rep1] pM this] True
        show "(fst (snd x), setChainProp d (length H1, []) (snd (snd x))) = ?gU (snd x)"
          by simp
      qed
      with True show ?thesis by (simp add: G2_def)
    next
      case False
      have "modifyProp c ?gU G1 = G1"
      proof (rule modifyProp_id)
        fix x assume "x \<in> set G1" "fst x = c"
        from map_of_distinct_mem [OF repRoutesD(2) [OF rep1] pM this]
        have "x = (c, p, M)" .
        with False show "?gU (snd x) = snd x" by auto
      qed
      moreover have "G2 = G1" unfolding G2_def using False by (rule if_not_P)
      ultimately show ?thesis by simp
    qed
    moreover have "mapValues (\<lambda>x. mapValues snd (snd x)) (modifyProp c ?gU G1)
        = modifyProp c ?u (mapValues (\<lambda>x. mapValues snd (snd x)) G1)"
      by (rule mapValues_modifyProp)
        (simp add: map_of_mapValues mapValues_setChainProp mapValues_Nil)
    ultimately show ?thesis by (simp add: eraseRefs_def)
  qed
  have "eraseRefs ?G3
     = modifyProp c (modifyProp d (setProp t b)) (eraseRefs G2)"
    unfolding eraseRefs_def
  proof (rule mapValues_modifyProp)
    fix v :: "ref \<times> (nat \<times> ref \<times> (address \<times> bool) list) list"
    show "mapValues snd (snd (fst v, modifyProp d (\<lambda>y. (fst y, setProp t b (snd y))) (snd v)))
        = modifyProp d (setProp t b) (mapValues snd (snd v))"
      by (simp add: mapValues_modifyProp [where g' = "setProp t b"])
  qed
  also have "\<dots> = getRoutes_step (eraseRefs G) e"
    using True a by (simp add: getRoutes_step_def Let_def e1 e2)
  finally show ?thesis using k3 rep3 by blast
qed

lemma heap_getRoutes_fold:
  "keeps H0 H \<Longrightarrow> length H0 \<le> r \<Longrightarrow> repRoutes (length H0) H r G \<Longrightarrow>
   \<exists>G'. keeps H0 (foldl (heap_getRoutes_step r) H es) \<and>
     repRoutes (length H0) (foldl (heap_getRoutes_step r) H es) r G' \<and>
     eraseRefs G' = foldl getRoutes_step (eraseRefs G) es"
proof (induction es arbitrary: H G)
  case Nil
  then show ?case by auto
next
  case (Cons e es)
  from heap_getRoutes_step [OF Cons.prems, of e] obtain G1 where
    "keeps H0 (heap_getRoutes_step r H e)"
    "repRoutes (length H0) (heap_getRoutes_step r H e) r G1"
    "eraseRefs G1 = getRoutes_step (eraseRefs G) e" by blast
  with Cons.IH [OF this(1) Cons.prems(2) this(2)] show ?case by simp
qed

lemma repRoutes_depositRoutesAt:
  assumes "repRoutes lo H r G"
  shows "depositRoutesAt H r = eraseRefs G"
proof -
  note top = repRoutesD(1) [OF assms] and mids = repRoutesD(4) [OF assms]
    and leaves = repRoutesD(5) [OF assms]
  have "mapValues (\<lambda>x. destTableAt H (Ref (fst x))) G
      = mapValues (\<lambda>x. mapValues snd (snd x)) G"
  proof (rule mapValues_cong)
    fix x assume x: "x \<in> set G"
    have "mapValues (\<lambda>y. addrBoolsAt H (Ref (fst y))) (snd (snd x))
        = mapValues snd (snd (snd x))"
    proof (rule mapValues_cong)
      fix y assume "y \<in> set (snd (snd x))"
      from leaves [OF x this]
      show "addrBoolsAt H (Ref (fst (snd y))) = snd (snd y)"
        by (simp add: addrBoolsAt_def addrProps_cell boolOf_Bool)
    qed
    with mids [OF x]
    show "destTableAt H (Ref (fst (snd x))) = mapValues snd (snd (snd x))"
      by (simp add: destTableAt_def chainProps_cell mapValues_mapValues)
  qed
  with top show ?thesis
    by (simp add: depositRoutesAt_def eraseRefs_def chainProps_cell mapValues_mapValues)
qed

lemma repRoutes_keeps:
  assumes k: "keeps H H'" and rep: "repRoutes lo H r G"
  shows "repRoutes lo H' r G"
proof (rule repRoutesI)
  show "cellAt H' r = Some (ChainObject (mapValues (\<lambda>x. Ref (fst x)) G))"
    using k repRoutesD(1) [OF rep] by (rule keeps_cellAt_Some)
  show "distinct (map fst G)" by (rule repRoutesD(2) [OF rep])
  show "distinct (map (\<lambda>x. fst (snd x)) G)" by (rule repRoutesD(3) [OF rep])
next
  fix x assume "x \<in> set G"
  from repRoutesD(4) [OF rep this]
  show "lo \<le> fst (snd x) \<and> fst (snd x) \<noteq> r \<and>
        cellAt H' (fst (snd x))
          = Some (ChainObject (mapValues (\<lambda>y. Ref (fst y)) (snd (snd x)))) \<and>
        distinct (map fst (snd (snd x)))"
    by (simp add: keeps_cellAt_Some [OF k])
next
  fix x y assume "x \<in> set G" "y \<in> set (snd (snd x))"
  from repRoutesD(5) [OF rep this]
  show "lo \<le> fst (snd y) \<and>
           cellAt H' (fst (snd y)) = Some (AddrObject (mapValues Bool (snd (snd y))))"
    by (simp add: keeps_cellAt_Some [OF k])
next
  fix x x' y y'
  assume "x \<in> set G" "x' \<in> set G" "y \<in> set (snd (snd x))" "y' \<in> set (snd (snd x'))"
    "fst (snd y) = fst (snd y')"
  then show "fst x = fst x' \<and> fst y = fst y'" by (rule repRoutesD(6) [OF rep])
qed

lemma heap_getRoutes_returns:
  assumes "hubAt H this = Some h"
  shows "case heap_getRoutes this H of
           (v, H') \<Rightarrow> keeps H H' \<and>
             (\<forall>H''. keeps H' H'' \<longrightarrow> depositRoutesAt H'' v = getRoutes h)"
proof -
  let ?H1 = "H @ [ChainObject []]"
  have k: "keeps H ?H1" by (rule keeps_append)
  have rep: "repRoutes (length H) ?H1 (length H) []"
    by (simp add: repRoutes_def cellAt_def mapValues_def)
  have ev: "hub_this_events ?H1 this = hub_events h"
    using hubAt_keeps [OF k assms] by (rule hub_this_events)
  from heap_getRoutes_fold [OF k le_refl rep, of "hub_events h"] obtain G' where
    k': "keeps H (foldl (heap_getRoutes_step (length H)) ?H1 (hub_events h))"
    and rep': "repRoutes (length H) (foldl (heap_getRoutes_step (length H)) ?H1 (hub_events h))
       (length H) G'"
    and er: "eraseRefs G' = foldl getRoutes_step (eraseRefs []) (hub_events h)" by blast
  have out: "heap_getRoutes this H
      = (length H, foldl (heap_getRoutes_step (length H)) ?H1 (hub_events h))"
    by (simp add: heap_getRoutes_def alloc_def ev)
  have "eraseRefs G' = getRoutes h"
    using er by (simp add: getRoutes_def eraseRefs_def mapValues_Nil)
  with k' repRoutes_depositRoutesAt [OF repRoutes_keeps [OF _ rep']] show ?thesis
    unfolding out by simp
qed

lemma pure_viewI:
  assumes step: "\<And>H. storeAt H = Some s \<Longrightarrow>
      (case call H of
         (v, H') \<Rightarrow> keeps H H' \<and> (\<forall>H''. keeps H' H'' \<longrightarrow> denote H'' v = x))"
    and frame: "\<And>H H'. keeps H H' \<Longrightarrow> storeAt H = Some s \<Longrightarrow> storeAt H' = Some s"
    and store: "storeAt H = Some s"
  shows "pure_view storeAt call denote H x"
proof -
  obtain v H' where c1: "call H = (v, H')" by (cases "call H")
  from step [OF store] c1
  have k1: "keeps H H'" and r1: "\<And>H''. keeps H' H'' \<Longrightarrow> denote H'' v = x" by auto
  from frame [OF k1 store] have store1: "storeAt H' = Some s" .
  obtain v' H'' where c2: "call H' = (v', H'')" by (cases "call H'")
  from step [OF store1] c2
  have k2: "keeps H' H''" and r2: "\<And>H3. keeps H'' H3 \<Longrightarrow> denote H3 v' = x" by auto
  from frame [OF k2 store1] have store2: "storeAt H'' = Some s" .
  from k1 k2 store store1 store2 r1 [OF keeps_refl] r1 [OF k2] r2 [OF keeps_refl]
  show ?thesis by (simp add: pure_view_def c1 c2)
qed

lemma spoke_views_of_log:
  "spoke_events s' = spoke_events s \<Longrightarrow>
   routesEnabled s' = routesEnabled s \<and> getSupportedTokens s' = getSupportedTokens s \<and>
   getSupportedChains s' = getSupportedChains s"
  by (simp add: routesEnabled_def getSupportedTokens_def getSupportedChains_def)

lemma hub_views_of_log:
  "hub_events h' = hub_events h \<Longrightarrow>
   getSpokePoolAddresses h' = getSpokePoolAddresses h \<and>
   getL1LpTokenTable h' = getL1LpTokenTable h \<and> getL1Tokens h' = getL1Tokens h \<and>
   getLpTokens h' = getLpTokens h \<and> getSpokeTokenTable h' = getSpokeTokenTable h \<and>
   getRoutes h' = getRoutes h"
  by (simp add: getSpokePoolAddresses_def getL1LpTokenTable_def getL1Tokens_def
      getLpTokens_def getSpokeTokenTable_def getRoutes_def)

text \<open>
  Claim C9. Each of the nine derived views is run on a heap that holds its store: the three
  views of \<^verbatim>\<open>SpokePoolUtils\<close> on a heap \<open>Hs\<close> with a spoke store \<open>s\<close> at \<open>sp\<close>, the six views
  of \<^verbatim>\<open>HubPoolUtils\<close> on a heap \<open>Hh\<close> with a hub store \<open>h\<close> at \<open>hp\<close>. A call allocates the
  objects it creates and writes to them only: it keeps every cell it found, so the store,
  its log and every other object are as before, and the store read after the call is the
  store read before it. A second call right after the first returns a new object whose
  value is equal to the value of the first result, and the first result still holds that
  value. The value is the one the log alone determines: the value of the view on any store
  \<open>s'\<close> (or \<open>h'\<close>) that holds the same log, whatever its other fields hold.
\<close>

theorem derived_views_leave_store_and_agree:
  assumes s: "spokeAt Hs sp = Some s" and s': "spoke_events s' = spoke_events s"
    and h: "hubAt Hh hp = Some h" and h': "hub_events h' = hub_events h"
  shows
    "pure_view (\<lambda>H. spokeAt H sp) (heap_routesEnabled sp) routeTableAt Hs (routesEnabled s') \<and>
     pure_view (\<lambda>H. spokeAt H sp) (heap_getSupportedTokens sp) stringArrayAt Hs
       (getSupportedTokens s') \<and>
     pure_view (\<lambda>H. spokeAt H sp) (heap_getSupportedChains sp) numberArrayAt Hs
       (getSupportedChains s') \<and>
     pure_view (\<lambda>H. hubAt H hp) (heap_getSpokePoolAddresses hp) (resultAt chainStringsAt) Hh
       (getSpokePoolAddresses h') \<and>
     pure_view (\<lambda>H. hubAt H hp) (heap_getL1LpTokenTable hp) addrStringsAt Hh
       (getL1LpTokenTable h') \<and>
     pure_view (\<lambda>H. hubAt H hp) (heap_getL1Tokens hp) stringArrayAt Hh (getL1Tokens h') \<and>
     pure_view (\<lambda>H. hubAt H hp) (heap_getLpTokens hp) stringArrayAt Hh (getLpTokens h') \<and>
     pure_view (\<lambda>H. hubAt H hp) (heap_getSpokeTokenTable hp) addrStringsAt Hh
       (getSpokeTokenTable h') \<and>
     pure_view (\<lambda>H. hubAt H hp) (heap_getRoutes hp) depositRoutesAt Hh (getRoutes h')"
proof -
  note sv = spoke_views_of_log [OF s'] and hv = hub_views_of_log [OF h']
  have v1: "pure_view (\<lambda>H. spokeAt H sp) (heap_routesEnabled sp) routeTableAt Hs
      (routesEnabled s)"
    by (rule pure_viewI [where s = s]) (erule heap_routesEnabled_returns, erule (1) spokeAt_keeps, rule s)
  have v2: "pure_view (\<lambda>H. spokeAt H sp) (heap_getSupportedTokens sp) stringArrayAt Hs
      (getSupportedTokens s)"
    by (rule pure_viewI [where s = s]) (erule heap_getSupportedTokens_returns, erule (1) spokeAt_keeps, rule s)
  have v3: "pure_view (\<lambda>H. spokeAt H sp) (heap_getSupportedChains sp) numberArrayAt Hs
      (getSupportedChains s)"
    by (rule pure_viewI [where s = s]) (erule heap_getSupportedChains_returns, erule (1) spokeAt_keeps, rule s)
  have v4: "pure_view (\<lambda>H. hubAt H hp) (heap_getSpokePoolAddresses hp)
      (resultAt chainStringsAt) Hh (getSpokePoolAddresses h)"
    by (rule pure_viewI [where s = h]) (erule heap_getSpokePoolAddresses_returns, erule (1) hubAt_keeps, rule h)
  have v5: "pure_view (\<lambda>H. hubAt H hp) (heap_getL1LpTokenTable hp) addrStringsAt Hh
      (getL1LpTokenTable h)"
    by (rule pure_viewI [where s = h]) (erule heap_getL1LpTokenTable_returns, erule (1) hubAt_keeps, rule h)
  have v6: "pure_view (\<lambda>H. hubAt H hp) (heap_getL1Tokens hp) stringArrayAt Hh (getL1Tokens h)"
    by (rule pure_viewI [where s = h]) (erule heap_getL1Tokens_returns, erule (1) hubAt_keeps, rule h)
  have v7: "pure_view (\<lambda>H. hubAt H hp) (heap_getLpTokens hp) stringArrayAt Hh (getLpTokens h)"
    by (rule pure_viewI [where s = h]) (erule heap_getLpTokens_returns, erule (1) hubAt_keeps, rule h)
  have v8: "pure_view (\<lambda>H. hubAt H hp) (heap_getSpokeTokenTable hp) addrStringsAt Hh
      (getSpokeTokenTable h)"
    by (rule pure_viewI [where s = h]) (erule heap_getSpokeTokenTable_returns, erule (1) hubAt_keeps, rule h)
  have v9: "pure_view (\<lambda>H. hubAt H hp) (heap_getRoutes hp) depositRoutesAt Hh (getRoutes h)"
    by (rule pure_viewI [where s = h]) (erule heap_getRoutes_returns, erule (1) hubAt_keeps, rule h)
  from v1 v2 v3 v4 v5 v6 v7 v8 v9 show ?thesis by (simp add: sv hv)
qed

theorem derived_views_leave_store_and_agree_witness:
  "spokeAt ex_heap 0 = Some ex_spoke_store \<and>
   spoke_events (ex_spoke_store\<lparr>wrappedNativeToken := None\<rparr>) = spoke_events ex_spoke_store \<and>
   hubAt ex_heap 2 = Some ex_hub_store \<and>
   hub_events (ex_hub_store\<lparr>wethAddress := None\<rparr>) = hub_events ex_hub_store \<and>
   heap_routesEnabled 0 ex_heap
     = (9, ex_heap @ [ChainObject [(137, Ref 5), (42161, Ref 6)],
                      SetObject [''0xWETH'', ''0xTok''], SetObject [],
                      ArrayObject [Str ''0xWETH'', Str ''0xTok''], ArrayObject [],
                      ChainObject [(137, Ref 7), (42161, Ref 8)]]) \<and>
   routesEnabled (ex_spoke_store\<lparr>wrappedNativeToken := None\<rparr>)
     = [(137, [''0xWETH'', ''0xTok'']), (42161, [])] \<and>
   getRoutes (ex_hub_store\<lparr>wethAddress := None\<rparr>) = [(10, [(137, [(''0xTok'', True)])])] \<and>
   pure_view (\<lambda>H. spokeAt H 0) (heap_routesEnabled 0) routeTableAt ex_heap
     (routesEnabled (ex_spoke_store\<lparr>wrappedNativeToken := None\<rparr>)) \<and>
   pure_view (\<lambda>H. spokeAt H 0) (heap_getSupportedTokens 0) stringArrayAt ex_heap
     (getSupportedTokens (ex_spoke_store\<lparr>wrappedNativeToken := None\<rparr>)) \<and>
   pure_view (\<lambda>H. spokeAt H 0) (heap_getSupportedChains 0) numberArrayAt ex_heap
     (getSupportedChains (ex_spoke_store\<lparr>wrappedNativeToken := None\<rparr>)) \<and>
   pure_view (\<lambda>H. hubAt H 2) (heap_getSpokePoolAddresses 2) (resultAt chainStringsAt) ex_heap
     (getSpokePoolAddresses (ex_hub_store\<lparr>wethAddress := None\<rparr>)) \<and>
   pure_view (\<lambda>H. hubAt H 2) (heap_getL1LpTokenTable 2) addrStringsAt ex_heap
     (getL1LpTokenTable (ex_hub_store\<lparr>wethAddress := None\<rparr>)) \<and>
   pure_view (\<lambda>H. hubAt H 2) (heap_getL1Tokens 2) stringArrayAt ex_heap
     (getL1Tokens (ex_hub_store\<lparr>wethAddress := None\<rparr>)) \<and>
   pure_view (\<lambda>H. hubAt H 2) (heap_getLpTokens 2) stringArrayAt ex_heap
     (getLpTokens (ex_hub_store\<lparr>wethAddress := None\<rparr>)) \<and>
   pure_view (\<lambda>H. hubAt H 2) (heap_getSpokeTokenTable 2) addrStringsAt ex_heap
     (getSpokeTokenTable (ex_hub_store\<lparr>wethAddress := None\<rparr>)) \<and>
   pure_view (\<lambda>H. hubAt H 2) (heap_getRoutes 2) depositRoutesAt ex_heap
     (getRoutes (ex_hub_store\<lparr>wethAddress := None\<rparr>))"
proof -
  have s: "spokeAt ex_heap 0 = Some ex_spoke_store"
    by (simp add: spokeAt_def cellAt_def ex_heap_def ex_spoke_store_def ex_spoke_def
        new_SpokePoolUtils_def)
  have s': "spoke_events (ex_spoke_store\<lparr>wrappedNativeToken := None\<rparr>)
      = spoke_events ex_spoke_store" by simp
  have h: "hubAt ex_heap 2 = Some ex_hub_store"
    by (simp add: hubAt_def cellAt_def ex_heap_def ex_hub_store_def ex_hub_def
        new_HubPoolUtils_def)
  have h': "hub_events (ex_hub_store\<lparr>wethAddress := None\<rparr>) = hub_events ex_hub_store"
    by simp
  have r: "heap_routesEnabled 0 ex_heap
     = (9, ex_heap @ [ChainObject [(137, Ref 5), (42161, Ref 6)],
                      SetObject [''0xWETH'', ''0xTok''], SetObject [],
                      ArrayObject [Str ''0xWETH'', Str ''0xTok''], ArrayObject [],
                      ChainObject [(137, Ref 7), (42161, Ref 8)]])"
    by (simp add: ex_heap_def heap_routesEnabled_def heap_routesEnabled_step_def alloc_def
        writeCell_def chainProps_def cellAt_def setMembers_def spoke_this_events_def
        eventsAt_def setChainProp_def modifyProp_def setAdd_def setDelete_def
        isArrayIndex_def ex_r1_def ex_r2_def ex_r3_def nth_append)
  have p: "routesEnabled (ex_spoke_store\<lparr>wrappedNativeToken := None\<rparr>)
     = [(137, [''0xWETH'', ''0xTok'']), (42161, [])]"
    by (simp add: ex_spoke_store_def routesEnabled_def routesEnabled_step_def
        setChainProp_def modifyProp_def setAdd_def setDelete_def isArrayIndex_def
        ex_r1_def ex_r2_def ex_r3_def)
  have g: "getRoutes (ex_hub_store\<lparr>wethAddress := None\<rparr>)
     = [(10, [(137, [(''0xTok'', True)])])]"
    by (simp add: ex_hub_store_def getRoutes_def getRoutes_step_def setChainProp_def
        modifyProp_def isArrayIndex_def ex_e1_def ex_e2_def ex_e3_def ex_e7_def)
  from derived_views_leave_store_and_agree [OF s s' h h'] s s' h h' r p g
  show ?thesis by (intro conjI) (simp_all only: simp_thms)
qed

end
